theory Spec2Isabelle
  imports Main
begin

section \<open>JavaScript values\<close>

text \<open>
  The hook is generic in the type \<open>T\<close> of the value it manages, and the code inspects values
  with \<open>!!v\<close>, \<open>===\<close>, \<open>indexOf\<close> and \<open>JSON.stringify\<close>. Values are therefore modelled
  as a datatype of JavaScript values. Objects, arrays and functions carry their identity
  (a reference, a natural number), since \<open>===\<close> compares them by identity. An object is the
  list of its own enumerable properties in enumeration order. Numbers are the integers
  (non-integral numbers, \<open>NaN\<close> and the infinities are not modelled); strings are byte
  strings.
\<close>

datatype jsval =
    JUndefined
  | JNull
  | JBool bool
  | JNum int
  | JStr string
  | JObj nat "(string \<times> jsval) list"
  | JArr nat "jsval list"
  | JFun nat

type_synonym jsobj = "(string \<times> jsval) list"

text \<open>\<open>!!v\<close>: the falsy values are \<open>undefined\<close>, \<open>null\<close>, \<open>false\<close>, \<open>0\<close> and \<open>''\<close>.\<close>

fun truthy :: "jsval \<Rightarrow> bool" where
  "truthy JUndefined = False"
| "truthy JNull = False"
| "truthy (JBool b) = b"
| "truthy (JNum n) = (n \<noteq> 0)"
| "truthy (JStr s) = (s \<noteq> [])"
| "truthy (JObj r es) = True"
| "truthy (JArr r xs) = True"
| "truthy (JFun r) = True"

text \<open>\<open>a === b\<close>: primitives by value, objects, arrays and functions by identity.\<close>

fun strict_eq :: "jsval \<Rightarrow> jsval \<Rightarrow> bool" where
  "strict_eq JUndefined JUndefined = True"
| "strict_eq JNull JNull = True"
| "strict_eq (JBool a) (JBool b) = (a = b)"
| "strict_eq (JNum a) (JNum b) = (a = b)"
| "strict_eq (JStr a) (JStr b) = (a = b)"
| "strict_eq (JObj r es) (JObj r' es') = (r = r')"
| "strict_eq (JArr r xs) (JArr r' xs') = (r = r')"
| "strict_eq (JFun r) (JFun r') = (r = r')"
| "strict_eq a b = False"

text \<open>\<open>array.indexOf(v)\<close>: the first index whose element is \<open>=== v\<close>, or \<open>-1\<close>.\<close>

fun indexOf :: "jsval list \<Rightarrow> jsval \<Rightarrow> int" where
  "indexOf [] v = -1"
| "indexOf (x # xs) v =
     (if strict_eq x v then 0
      else (let i = indexOf xs v in if i = -1 then -1 else i + 1))"

subsection \<open>Decimal and hexadecimal numerals\<close>

definition digit_char :: "nat \<Rightarrow> char" where
  "digit_char n = ''0123456789'' ! n"

function show_nat :: "nat \<Rightarrow> string" where
  "show_nat n = (if n < 10 then [digit_char n] else show_nat (n div 10) @ [digit_char (n mod 10)])"
  by pat_completeness auto
termination
  by (relation "measure id") auto

declare show_nat.simps [simp del]

definition show_int :: "int \<Rightarrow> string" where
  "show_int i = (if i < 0 then CHR ''-'' # show_nat (nat (- i)) else show_nat (nat i))"

definition hex_lower :: "nat \<Rightarrow> char" where
  "hex_lower n = ''0123456789abcdef'' ! n"

definition hex_upper :: "nat \<Rightarrow> char" where
  "hex_upper n = ''0123456789ABCDEF'' ! n"

fun intercalate :: "'a list \<Rightarrow> 'a list list \<Rightarrow> 'a list" where
  "intercalate sep [] = []"
| "intercalate sep [x] = x"
| "intercalate sep (x # y # ys) = x @ sep @ intercalate sep (y # ys)"

subsection \<open>\<open>JSON.stringify\<close>\<close>

text \<open>
  \<open>JSON.stringify\<close> is a built-in of the language. Its result is a string or \<open>undefined\<close>
  (\<open>None\<close>): \<open>undefined\<close> and functions have no JSON text, a property whose value has none
  is left out of an object, and an array element that has none is written \<open>null\<close>.
  Strings are quoted, with \<open>"\<close>, \<open>\\<close> and the control characters escaped.
\<close>

definition json_escape_char :: "char \<Rightarrow> string" where
  "json_escape_char c =
     (if c = CHR 0x22 then [CHR 0x5C, CHR 0x22]
      else if c = CHR 0x5C then [CHR 0x5C, CHR 0x5C]
      else if c = CHR 0x08 then [CHR 0x5C, CHR ''b'']
      else if c = CHR 0x09 then [CHR 0x5C, CHR ''t'']
      else if c = CHR 0x0A then [CHR 0x5C, CHR ''n'']
      else if c = CHR 0x0C then [CHR 0x5C, CHR ''f'']
      else if c = CHR 0x0D then [CHR 0x5C, CHR ''r'']
      else if (of_char c :: nat) < 32
        then [CHR 0x5C, CHR ''u'', CHR ''0'', CHR ''0'',
              hex_lower (of_char c div 16), hex_lower (of_char c mod 16)]
      else [c])"

definition json_quote :: "string \<Rightarrow> string" where
  "json_quote s = CHR 0x22 # concat (map json_escape_char s) @ [CHR 0x22]"

fun JSON_stringify :: "jsval \<Rightarrow> string option"
  and json_elements :: "jsval list \<Rightarrow> string list"
  and json_members :: "(string \<times> jsval) list \<Rightarrow> string list" where
  "JSON_stringify JUndefined = None"
| "JSON_stringify JNull = Some ''null''"
| "JSON_stringify (JBool b) = Some (if b then ''true'' else ''false'')"
| "JSON_stringify (JNum n) = Some (show_int n)"
| "JSON_stringify (JStr s) = Some (json_quote s)"
| "JSON_stringify (JObj r es) = Some (''{'' @ intercalate '','' (json_members es) @ ''}'')"
| "JSON_stringify (JArr r xs) = Some (''['' @ intercalate '','' (json_elements xs) @ '']'')"
| "JSON_stringify (JFun r) = None"
| "json_elements [] = []"
| "json_elements (x # xs) =
     (case JSON_stringify x of None \<Rightarrow> ''null'' | Some s \<Rightarrow> s) # json_elements xs"
| "json_members [] = []"
| "json_members ((k, v) # es) =
     (case JSON_stringify v of
        None \<Rightarrow> json_members es
      | Some s \<Rightarrow> (json_quote k @ '':'' @ s) # json_members es)"

text \<open>
  \<^verbatim>\<open>
  export function isEqualObj(a: any, b: any) {
    // Exist early if they're the same.
    if (a === b) return true;
    return JSON.stringify(a) === JSON.stringify(b);
  }
  \<close>
\<close>

definition isEqualObj :: "jsval \<Rightarrow> jsval \<Rightarrow> bool" where
  "isEqualObj a b = (if strict_eq a b then True else JSON_stringify a = JSON_stringify b)"


section \<open>Plain objects\<close>

text \<open>
  The commit queue, the decoded query string and their merge are plain objects used as
  dictionaries. The order of the keys of such an object is the language's: the keys that
  are array indices (canonical decimal numerals below \<open>2^32 - 1\<close>) come first, in ascending
  numeric order, then the other keys in the order in which they were created. A \<open>jsobj\<close>
  lists the own properties in that order.
\<close>

definition is_digit :: "char \<Rightarrow> bool" where
  "is_digit c = (c \<in> set ''0123456789'')"

definition digit_val :: "char \<Rightarrow> int" where
  "digit_val c = of_char c - 48"

definition array_index :: "string \<Rightarrow> int option" where
  "array_index s =
     (if s \<noteq> [] \<and> list_all is_digit s \<and> (hd s = CHR ''0'' \<longrightarrow> length s = 1)
      then (let n = foldl (\<lambda>a c. 10 * a + digit_val c) 0 s
            in if n < 4294967295 then Some n else None)
      else None)"

text \<open>Creating the property \<open>k\<close> in an object that has array-index keys \<open>< n\<close> in front.\<close>

fun insert_index :: "int \<Rightarrow> string \<Rightarrow> jsval \<Rightarrow> jsobj \<Rightarrow> jsobj" where
  "insert_index n k v [] = [(k, v)]"
| "insert_index n k v ((k', v') # es) =
     (case array_index k' of
        Some m \<Rightarrow> if m < n then (k', v') # insert_index n k v es else (k, v) # (k', v') # es
      | None \<Rightarrow> (k, v) # (k', v') # es)"

text \<open>
  \<open>o[k] = v\<close> on a copy: an existing key keeps its place and takes the new value; a new
  key is created at the place the key order gives it.
\<close>

fun replace_value :: "string \<Rightarrow> jsval \<Rightarrow> jsobj \<Rightarrow> jsobj" where
  "replace_value k v [] = []"
| "replace_value k v ((k', v') # es) =
     (if k' = k then (k', v) else (k', v')) # replace_value k v es"

definition obj_set :: "string \<Rightarrow> jsval \<Rightarrow> jsobj \<Rightarrow> jsobj" where
  "obj_set k v obj =
     (if k \<in> fst ` set obj then replace_value k v obj
      else (case array_index k of
              Some n \<Rightarrow> insert_index n k v obj
            | None \<Rightarrow> obj @ [(k, v)]))"

text \<open>
  Object spread: \<open>{...target, ...source}\<close> copies the own properties of \<open>source\<close>, in
  their order, onto \<open>target\<close>. The literal \<open>{...a, ...b}\<close> is \<open>spread (spread [] a) b\<close>.
\<close>

definition spread :: "jsobj \<Rightarrow> jsobj \<Rightarrow> jsobj" where
  "spread target source = foldl (\<lambda>acc (k, v). obj_set k v acc) target source"

definition Object_keys :: "jsobj \<Rightarrow> string list" where
  "Object_keys obj = map fst obj"

definition obj_delete :: "string \<Rightarrow> jsobj \<Rightarrow> jsobj" where
  "obj_delete k obj = filter (\<lambda>(k', v). k' \<noteq> k) obj"

text \<open>
  A property read \<open>obj[k]\<close> on a plain object finds the own property, else the property
  inherited from \<open>Object.prototype\<close>, else \<open>undefined\<close>. The inherited members are
  functions, but for the accessor \<open>__proto__\<close>, which gives the prototype object; the
  references \<open>0\<close> to \<open>11\<close> stand for these built-ins.
\<close>

definition Object_prototype :: "string \<Rightarrow> jsval option" where
  "Object_prototype k =
     map_of
       [(''constructor'', JFun 1), (''hasOwnProperty'', JFun 2), (''isPrototypeOf'', JFun 3),
        (''propertyIsEnumerable'', JFun 4), (''toLocaleString'', JFun 5),
        (''toString'', JFun 6), (''valueOf'', JFun 7), (''__defineGetter__'', JFun 8),
        (''__defineSetter__'', JFun 9), (''__lookupGetter__'', JFun 10),
        (''__lookupSetter__'', JFun 11), (''__proto__'', JObj 0 [])] k"

definition prop_get :: "jsobj \<Rightarrow> string \<Rightarrow> jsval" where
  "prop_get obj k =
     (case map_of obj k of
        Some v \<Rightarrow> v
      | None \<Rightarrow> (case Object_prototype k of Some f \<Rightarrow> f | None \<Rightarrow> JUndefined))"

section \<open>The query codec\<close>

text \<open>
  The library \<open>qs\<close> is not part of the repository. Its decoder
  \<open>qs.parse(s, { ignoreQueryPrefix: true })\<close> is a parameter of the model, and so is the
  way it writes one key with its value (\<open>format k v\<close>: the \<open>key=value\<close> pieces for the
  top-level key \<open>k\<close>, percent-encoded; several for a nested value, none for
  \<open>undefined\<close>).
\<close>

record codec =
  parse :: "string \<Rightarrow> jsobj"
  format :: "string \<Rightarrow> jsval \<Rightarrow> string list"

text \<open>
  Modelled from the spec: the top level of \<open>qs.stringify(obj, { skipNulls: true })\<close>,
  which the repository calls but does not contain. The spec: the encoder must omit the
  keys whose value is null or undefined and otherwise percent-encode the key/value pairs,
  joined by \<open>&\<close>. The keys are taken in the order of \<open>Object.keys\<close>.
\<close>

definition skipNulls :: "jsobj \<Rightarrow> jsobj" where
  "skipNulls obj = filter (\<lambda>(k, v). v \<noteq> JNull \<and> v \<noteq> JUndefined) obj"

definition qs_stringify :: "codec \<Rightarrow> jsobj \<Rightarrow> string" where
  "qs_stringify c obj =
     intercalate ''&'' (concat (map (\<lambda>(k, v). format c k v) (skipNulls obj)))"

section \<open>The commit queue and the debounced committer\<close>

text \<open>
  \<^verbatim>\<open>
  export const COMMIT_DELAY = 100;
  let commitQueue: { [key: string]: string | null } = {};
  \<close>
  The queue is a variable of the module. Every call of \<open>useQsStateCreator\<close> makes a
  scope: its location, its commit function and its debounced committer. The commit
  function belongs to the host; the model records the search strings it is called with.
  The timer of the debounced committer is \<open>Some r\<close> when a call is pending, due in \<open>r\<close>
  milliseconds.
\<close>

definition COMMIT_DELAY :: nat where
  "COMMIT_DELAY = 100"

record scope =
  location :: string
  committed :: "string list"
  timer :: "nat option"

record module =
  commitQueue :: jsobj
  scopes :: "scope list"

definition module_init :: module where
  "module_init = \<lparr>commitQueue = [], scopes = []\<rparr>"

text \<open>\<open>useQsStateCreator({ commit, location })\<close>: a new scope, named by its index.\<close>

definition useQsStateCreator :: "string \<Rightarrow> module \<Rightarrow> nat \<times> module" where
  "useQsStateCreator loc m =
     (length (scopes m),
      m\<lparr>scopes := scopes m @ [\<lparr>location = loc, committed = [], timer = None\<rparr>]\<rparr>)"

text \<open>The host navigates: the location of a scope changes.\<close>

definition set_location :: "nat \<Rightarrow> string \<Rightarrow> module \<Rightarrow> module" where
  "set_location sid loc m =
     (if sid < length (scopes m)
      then m\<lparr>scopes := (scopes m)[sid := (scopes m ! sid)\<lparr>location := loc\<rparr>]\<rparr>
      else m)"

text \<open>
  The function given to \<open>debounce\<close>:
  \<^verbatim>\<open>
  const parsedQS = qs.parse(location.current?.search || '', { ignoreQueryPrefix: true });
  const qsObject = { ...parsedQS, ...commitQueue };
  commitToLocation({ search: qs.stringify(qsObject, { skipNulls: true }) });
  commitQueue = {};
  \<close>
\<close>

definition qsObject :: "codec \<Rightarrow> string \<Rightarrow> jsobj \<Rightarrow> jsobj" where
  "qsObject c loc queue = spread (spread [] (parse c loc)) queue"

definition commit_now :: "codec \<Rightarrow> nat \<Rightarrow> module \<Rightarrow> module" where
  "commit_now c sid m =
     (if sid < length (scopes m)
      then (let sc = scopes m ! sid;
                search = qs_stringify c (qsObject c (location sc) (commitQueue m))
            in m\<lparr>scopes := (scopes m)[sid := sc\<lparr>committed := committed sc @ [search]\<rparr>],
                 commitQueue := []\<rparr>)
      else m)"

text \<open>
  Modelled from the spec: the debounce primitive (\<open>lodash.debounce\<close>, not part of the
  repository) wraps a callback so that repeated invocations within a fixed delay collapse
  into a single eventual call after the delay elapses from the last invocation. Calling
  the debounced \<open>commit\<close> (re)starts the timer; when time passes the timer runs down; the
  callback runs when the timer fires, which it does only once it has run down.
\<close>

definition commit :: "nat \<Rightarrow> module \<Rightarrow> module" where
  "commit sid m =
     (if sid < length (scopes m)
      then m\<lparr>scopes := (scopes m)[sid := (scopes m ! sid)\<lparr>timer := Some COMMIT_DELAY\<rparr>]\<rparr>
      else m)"

definition elapse :: "nat \<Rightarrow> module \<Rightarrow> module" where
  "elapse dt m =
     m\<lparr>scopes :=
         map (\<lambda>sc. sc\<lparr>timer := map_option (\<lambda>r. if r \<le> dt then 0 else r - dt) (timer sc)\<rparr>)
           (scopes m)\<rparr>"

definition timer_fires :: "codec \<Rightarrow> nat \<Rightarrow> module \<Rightarrow> module" where
  "timer_fires c sid m =
     (if sid < length (scopes m) \<and> timer (scopes m ! sid) = Some 0
      then commit_now c sid
             (m\<lparr>scopes := (scopes m)[sid := (scopes m ! sid)\<lparr>timer := None\<rparr>]\<rparr>)
      else m)"

text \<open>
  \<^verbatim>\<open>
  (k: string, v: string | null) => {
    commitQueue = { ...commitQueue, [k]: v };
    commit();
  }
  \<close>
\<close>

definition storeInURL :: "nat \<Rightarrow> string \<Rightarrow> jsval \<Rightarrow> module \<Rightarrow> module" where
  "storeInURL sid k v m =
     commit sid (m\<lparr>commitQueue := obj_set k v (spread [] (commitQueue m))\<rparr>)"


section \<open>The binding of one key\<close>

text \<open>
  A state definition: \<open>{ key, default, hydrator?, dehydrator?, validator? }\<close>. The
  validator is an array of the valid options, a function, or absent.
\<close>

datatype validator_option = NoValidator | ArrayValidator "jsval list" | FunValidator "jsval \<Rightarrow> jsval"

record QsStateDefinition =
  key :: string
  default_val :: jsval
  hydrator :: "(jsval \<Rightarrow> jsval) option"
  dehydrator :: "(jsval \<Rightarrow> jsval) option"
  validator :: validator_option

definition identityFn :: "jsval \<Rightarrow> jsval" where
  "identityFn v = v"

text \<open>\<open>const { hydrator = identityFn, dehydrator = identityFn } = def;\<close>\<close>

definition hydrator_of :: "QsStateDefinition \<Rightarrow> jsval \<Rightarrow> jsval" where
  "hydrator_of def = (case hydrator def of None \<Rightarrow> identityFn | Some h \<Rightarrow> h)"

definition dehydrator_of :: "QsStateDefinition \<Rightarrow> jsval \<Rightarrow> jsval" where
  "dehydrator_of def = (case dehydrator def of None \<Rightarrow> identityFn | Some d \<Rightarrow> d)"

text \<open>
  \<^verbatim>\<open>
  (v: any) => {
    const userValidator = def.validator;
    if (Array.isArray(userValidator)) {
      return userValidator.indexOf(v) !== -1;
    } else if (typeof userValidator === 'function') {
      return userValidator(v);
    } else {
      return !!v;
    }
  }
  \<close>
\<close>

definition validator_fn :: "QsStateDefinition \<Rightarrow> jsval \<Rightarrow> jsval" where
  "validator_fn def v =
     (case validator def of
        ArrayValidator userValidator \<Rightarrow> JBool (indexOf userValidator v \<noteq> -1)
      | FunValidator userValidator \<Rightarrow> userValidator v
      | NoValidator \<Rightarrow> JBool (truthy v))"

text \<open>
  \<^verbatim>\<open>
  const getValueFromURL = (searchString: string) => {
    const parsedQS = qs.parse(searchString, { ignoreQueryPrefix: true });
    const value = hydrator(parsedQS[def.key] as string);
    return validator(value) ? value as T : def.default;
  };
  \<close>
\<close>

definition getValueFromURL :: "codec \<Rightarrow> QsStateDefinition \<Rightarrow> string \<Rightarrow> jsval" where
  "getValueFromURL c def searchString =
     (let parsedQS = parse c searchString;
          value = hydrator_of def (prop_get parsedQS (key def))
      in if truthy (validator_fn def value) then value else default_val def)"

text \<open>
  Modelled from the spec: the host is a UI framework ``with reactive state and
  re-render-on-change semantics''. The code imports it (\<open>react\<close>); the repository does not
  contain it. Its hooks behave as the library documents them:

  \<^item> \<open>useState(initialState)\<close> makes, at the first render, the state \<open>initialState\<close>, unless
    \<open>initialState\<close> is a function: then the function is an initialiser, the state is the
    result of calling it without arguments, and the render throws when that call throws.
  \<^item> The setter called with \<open>action\<close> makes \<open>action\<close> the state, unless \<open>action\<close> is a
    function: then the function is an updater and the state becomes the result of calling
    it with the current state. The call of the setter itself never throws; when the
    updater throws, the next render of the component throws.
  \<^item> \<open>useEffect(f, deps)\<close> runs \<open>f\<close> after the first render, and after a later render
    when one of \<open>deps\<close> is not the same value (\<open>Object.is\<close>) as at the render before.

  A function value is a reference; what calling it does is given by a table of type
  \<open>calls\<close>: \<open>call r args\<close> is the result of calling the function \<open>r\<close> with the arguments
  \<open>args\<close> (and no \<open>this\<close>), or \<open>None\<close> when the call throws.
\<close>

type_synonym calls = "nat \<Rightarrow> jsval list \<Rightarrow> jsval option"

fun is_function :: "jsval \<Rightarrow> bool" where
  "is_function (JFun r) = True"
| "is_function v = False"

definition useState :: "calls \<Rightarrow> jsval \<Rightarrow> jsval option" where
  "useState call initialState =
     (case initialState of JFun r \<Rightarrow> call r [] | _ \<Rightarrow> Some initialState)"

text \<open>
  The state of a binding: the React state \<open>valueState\<close> (which \<open>stateRef.current\<close> copies at
  every render), the ref \<open>mounted\<close>, and the dependencies \<open>[locSearch, def]\<close> with which
  the effect last ran (the definition object by its reference). A binding whose render
  has thrown is \<open>None\<close>.
\<close>

record binding =
  valueState :: jsval
  mounted :: bool
  deps :: "(string \<times> nat) option"

text \<open>\<open>setValueState(action)\<close>, the setter that \<open>useState\<close> gives.\<close>

definition setValueState :: "calls \<Rightarrow> jsval \<Rightarrow> binding \<Rightarrow> binding option" where
  "setValueState call action b =
     (case action of
        JFun r \<Rightarrow> map_option (\<lambda>s. b\<lparr>valueState := s\<rparr>) (call r [valueState b])
      | _ \<Rightarrow> Some (b\<lparr>valueState := action\<rparr>))"

text \<open>
  The first render: \<open>const mounted = useRef(false)\<close> and
  \<open>const [valueState, setValueState] = useState(getValueFromURL(locSearch))\<close>.
\<close>

definition useQsState :: "codec \<Rightarrow> calls \<Rightarrow> QsStateDefinition \<Rightarrow> string \<Rightarrow> binding option" where
  "useQsState c call def locSearch =
     map_option (\<lambda>s. \<lparr>valueState = s, mounted = False, deps = None\<rparr>)
       (useState call (getValueFromURL c def locSearch))"

text \<open>
  \<^verbatim>\<open>
  (value: T | null) => {
    const v = validator(value) ? value : def.default;
    const dehydratedVal = dehydrator(v);
    setValueState(v);
    const dehydratedDefaultVal = dehydrator(def.default);
    storeInURL(
      def.key,
      dehydratedVal !== dehydratedDefaultVal ? dehydratedVal as string : null
    );
  }
  \<close>
  The binding belongs to the scope \<open>sid\<close>, whose \<open>storeInURL\<close> it calls.
\<close>

definition setValue ::
  "calls \<Rightarrow> QsStateDefinition \<Rightarrow> nat \<Rightarrow> jsval \<Rightarrow> binding \<times> module
     \<Rightarrow> binding option \<times> module" where
  "setValue call def sid value bm =
     (let v = (if truthy (validator_fn def value) then value else default_val def);
          dehydratedVal = dehydrator_of def v;
          b' = setValueState call v (fst bm);
          dehydratedDefaultVal = dehydrator_of def (default_val def)
      in (b', storeInURL sid (key def)
                (if \<not> strict_eq dehydratedVal dehydratedDefaultVal then dehydratedVal else JNull)
                (snd bm)))"

text \<open>
  The effect of the TypeScript module (\<open>qs-state-hook.ts\<close>), which the tests import:
  \<^verbatim>\<open>
  useEffect(() => {
    if (!mounted.current) {
      mounted.current = true;
      return;
    }
    const v = getValueFromURL(locSearch);
    const hasPendingCommits = Object.keys(commitQueue).length;
    if (!hasPendingCommits && !isEqualObj(v, stateRef.current)) {
      setValueState(v);
    }
  }, [locSearch, def]);
  \<close>
  The result is the argument of the call of \<open>setValueState\<close>, if the effect makes one, and
  the binding after the effect.
\<close>

definition locSearch_effect ::
  "codec \<Rightarrow> calls \<Rightarrow> QsStateDefinition \<Rightarrow> string \<Rightarrow> jsobj \<Rightarrow> binding
     \<Rightarrow> jsval option \<times> binding option" where
  "locSearch_effect c call def locSearch queue b =
     (if \<not> mounted b then (None, Some (b\<lparr>mounted := True\<rparr>))
      else (let v = getValueFromURL c def locSearch;
                hasPendingCommits = length (Object_keys queue)
            in if \<not> (hasPendingCommits \<noteq> 0) \<and> \<not> isEqualObj v (valueState b)
               then (Some v, setValueState call v b)
               else (None, Some b)))"

text \<open>
  The repository also holds a JavaScript copy of the module (\<open>qs-state-hook.js\<close>), with
  the same queue, committer, \<open>isEqualObj\<close> and \<open>setValue\<close>. Its validator takes for an
  array whatever has a method \<open>indexOf\<close>, which on the three forms of validator of the
  model is the same test, so that its \<open>getValueFromURL\<close> is the one above. Its effect is
  another one:
  \<^verbatim>\<open>
  useEffect(() => {
    if (!mounted.current) {
      mounted.current = true;
      return;
    }
    const v = getValueFromURL(locSearch);
    if (!isEqualObj(v, stateRef.current)) {
      setValueState(v);
    }
  }, [locSearch, def]);
  \<close>
\<close>

definition locSearch_effect_js ::
  "codec \<Rightarrow> calls \<Rightarrow> QsStateDefinition \<Rightarrow> string \<Rightarrow> binding
     \<Rightarrow> jsval option \<times> binding option" where
  "locSearch_effect_js c call def locSearch b =
     (if \<not> mounted b then (None, Some (b\<lparr>mounted := True\<rparr>))
      else (let v = getValueFromURL c def locSearch
            in if \<not> isEqualObj v (valueState b)
               then (Some v, setValueState call v b)
               else (None, Some b)))"

text \<open>
  \<open>useEffect(effect, [locSearch, def])\<close> after a render: React runs the effect when
  there was no render before, or when \<open>locSearch\<close> or the definition object is another
  one than at the render before; otherwise nothing happens. The dependencies are the
  location and the reference of the definition object.
\<close>

definition useEffect ::
  "(binding \<Rightarrow> jsval option \<times> binding option) \<Rightarrow> string \<times> nat \<Rightarrow> binding
     \<Rightarrow> binding option" where
  "useEffect effect d b =
     (if deps b = Some d then Some b
      else map_option (\<lambda>b'. b'\<lparr>deps := Some d\<rparr>) (snd (effect b)))"

text \<open>
  What follows a render of the component with the definition object \<open>def\<close> (whose
  reference is \<open>ref\<close>) at the location \<open>locSearch\<close>, in the TypeScript module and in the
  JavaScript copy.
\<close>

definition after_render ::
  "codec \<Rightarrow> calls \<Rightarrow> nat \<Rightarrow> QsStateDefinition \<Rightarrow> string \<Rightarrow> jsobj \<Rightarrow> binding
     \<Rightarrow> binding option" where
  "after_render c call ref def locSearch queue =
     useEffect (locSearch_effect c call def locSearch queue) (locSearch, ref)"

definition after_render_js ::
  "codec \<Rightarrow> calls \<Rightarrow> nat \<Rightarrow> QsStateDefinition \<Rightarrow> string \<Rightarrow> binding \<Rightarrow> binding option" where
  "after_render_js c call ref def locSearch =
     useEffect (locSearch_effect_js c call def locSearch) (locSearch, ref)"


section \<open>A concrete codec for the scenarios\<close>

text \<open>
  Modelled from the spec: the query codec (the library \<open>qs\<close>, not part of the repository).
  The decoder ignores a leading \<open>?\<close> and gives an ordered mapping from the keys to their
  values; the encoder percent-encodes the key/value pairs. The decoder is modelled on
  flat query strings only: no percent escapes, no \<open>+\<close>, no brackets and no repeated keys.
  As the library does, it ignores the keys that would shadow a member of
  \<open>Object.prototype\<close>. The general theorems do not use this codec: they hold for every
  codec.
\<close>

definition is_unreserved :: "char \<Rightarrow> bool" where
  "is_unreserved c =
     (c \<in> set ''-._~0123456789ABCDEFGHIJKLMNOPQRSTUVWXYZabcdefghijklmnopqrstuvwxyz'')"

definition uri_encode :: "string \<Rightarrow> string" where
  "uri_encode s =
     concat (map (\<lambda>c. if is_unreserved c then [c]
                       else [CHR ''%'', hex_upper (of_char c div 16), hex_upper (of_char c mod 16)]) s)"

fun qs_format :: "string \<Rightarrow> jsval \<Rightarrow> string list"
  and qs_format_members :: "string \<Rightarrow> (string \<times> jsval) list \<Rightarrow> string list"
  and qs_format_elements :: "string \<Rightarrow> nat \<Rightarrow> jsval list \<Rightarrow> string list" where
  "qs_format prefix JUndefined = []"
| "qs_format prefix JNull = [uri_encode prefix @ ''='']"
| "qs_format prefix (JBool b) = [uri_encode prefix @ ''='' @ (if b then ''true'' else ''false'')]"
| "qs_format prefix (JNum n) = [uri_encode prefix @ ''='' @ uri_encode (show_int n)]"
| "qs_format prefix (JStr s) = [uri_encode prefix @ ''='' @ uri_encode s]"
| "qs_format prefix (JObj r es) = qs_format_members prefix es"
| "qs_format prefix (JArr r xs) = qs_format_elements prefix 0 xs"
| "qs_format prefix (JFun r) = []"
| "qs_format_members prefix [] = []"
| "qs_format_members prefix ((k, v) # es) =
     (if v = JNull then [] else qs_format (prefix @ ''['' @ k @ '']'') v)
     @ qs_format_members prefix es"
| "qs_format_elements prefix i [] = []"
| "qs_format_elements prefix i (x # xs) =
     (if x = JNull then [] else qs_format (prefix @ ''['' @ show_nat i @ '']'') x)
     @ qs_format_elements prefix (Suc i) xs"

fun split_on :: "char \<Rightarrow> string \<Rightarrow> string list" where
  "split_on d [] = [[]]"
| "split_on d (x # xs) =
     (if x = d then [] # split_on d xs
      else (case split_on d xs of [] \<Rightarrow> [[x]] | p # ps \<Rightarrow> (x # p) # ps))"

definition qs_parse :: "string \<Rightarrow> jsobj" where
  "qs_parse s =
     foldl (\<lambda>obj part.
              (let k = takeWhile (\<lambda>c. c \<noteq> CHR ''='') part;
                   v = drop 1 (dropWhile (\<lambda>c. c \<noteq> CHR ''='') part)
               in if k = [] \<or> Object_prototype k \<noteq> None then obj else obj_set k (JStr v) obj))
       [] (split_on CHR ''&'' (case s of [] \<Rightarrow> [] | x # xs \<Rightarrow> if x = CHR ''?'' then xs else s))"

definition qs :: codec where
  "qs = \<lparr>parse = qs_parse, format = qs_format\<rparr>"

section \<open>Example definitions and bindings\<close>

text \<open>The definitions of the test suite: key \<open>val\<close>, no hydrator, dehydrator or validator.\<close>

definition animal :: QsStateDefinition where
  "animal = \<lparr>key = ''val'', default_val = JNull, hydrator = None, dehydrator = None,
              validator = NoValidator\<rparr>"

text \<open>
  A binding after its first render, with the definition object \<open>0\<close> at the location
  \<open>loc\<close> and nothing pending, and the first run of the effect.
\<close>

definition mount :: "codec \<Rightarrow> calls \<Rightarrow> QsStateDefinition \<Rightarrow> string \<Rightarrow> binding option" where
  "mount c call def loc =
     (case useQsState c call def loc of
        None \<Rightarrow> None
      | Some b \<Rightarrow> after_render c call 0 def loc [] b)"

text \<open>The mounted binding that holds \<open>v\<close>, rendered last at \<open>loc\<close>.\<close>

definition settled :: "jsval \<Rightarrow> string \<Rightarrow> binding" where
  "settled v loc = \<lparr>valueState = v, mounted = True, deps = Some (loc, 0)\<rparr>"

definition settled_cat :: binding where
  "settled_cat = settled (JStr ''cat'') ''?val=cat''"

text \<open>The definition of the tests whose default is \<open>'ferret'\<close>.\<close>

definition animal_ferret :: QsStateDefinition where
  "animal_ferret = animal\<lparr>default_val := JStr ''ferret''\<rparr>"



definition never_valid :: QsStateDefinition where
  "never_valid = animal_ferret\<lparr>validator := FunValidator (\<lambda>v. JBool False)\<rparr>"

text \<open>
  The text of a value in a template literal, \<open>`${v}`\<close>, for the primitive values and the
  plain objects (arrays and functions have texts of their own, which are not modelled and
  do not occur below).
\<close>

fun template_text :: "jsval \<Rightarrow> string" where
  "template_text JUndefined = ''undefined''"
| "template_text JNull = ''null''"
| "template_text (JBool b) = (if b then ''true'' else ''false'')"
| "template_text (JNum n) = show_int n"
| "template_text (JStr s) = s"
| "template_text v = ''[object Object]''"


text \<open>
  The default and the dehydrator of the test on objects as default:
  \<open>(v) => `${v?.type}|${v?.count}`\<close>, where \<open>v?.k\<close> is \<open>undefined\<close> unless \<open>v\<close> is an object
  with the property. (The hydrator of the test, which \<open>setValue\<close> does not use, is left
  out.)
\<close>

definition optional_get :: "jsval \<Rightarrow> string \<Rightarrow> jsval" where
  "optional_get v k = (case v of JObj r es \<Rightarrow> prop_get es k | _ \<Rightarrow> JUndefined)"

definition complexDefault :: jsval where
  "complexDefault =
     JObj 1 [(''count'', JNum 1), (''type'', JStr ''cat''),
             (''other'', JStr ''default prop never on URL'')]"

definition type_count :: QsStateDefinition where
  "type_count =
     \<lparr>key = ''val'', default_val = complexDefault, hydrator = None,
      dehydrator = Some (\<lambda>v. JStr (template_text (optional_get v ''type'') @ ''|''
                                     @ template_text (optional_get v ''count''))),
      validator = NoValidator\<rparr>"

text \<open>
  The functions that the scenarios call: \<open>Object.prototype.toString\<close> (reference \<open>6\<close>),
  which called without \<open>this\<close> gives \<open>'[object Undefined]'\<close>;
  \<open>Object.prototype.valueOf\<close> (reference \<open>7\<close>), which called without \<open>this\<close> throws a
  \<open>TypeError\<close>; and a function \<open>(v) => v\<close> of the application (reference \<open>20\<close>). No other
  function is called in the scenarios, and the table has no result for them.
\<close>

definition scenario_call :: calls where
  "scenario_call r args =
     (if r = 6 then Some (JStr ''[object Undefined]'')
      else if r = 20 then Some (case args of [] \<Rightarrow> JUndefined | v # vs \<Rightarrow> v)
      else None)"

text \<open>A page with one scope, at the given location, and nothing pending.\<close>

definition one_scope :: "string \<Rightarrow> module" where
  "one_scope loc = snd (useQsStateCreator loc module_init)"

text \<open>The same page when a write of \<open>null\<close> to \<open>val\<close> is pending and the timer is due.\<close>

definition due_null :: "string \<Rightarrow> module" where
  "due_null loc = elapse COMMIT_DELAY (storeInURL 0 ''val'' JNull (one_scope loc))"

text \<open>
  A page with two scopes, the first at \<open>?val=cat\<close> and the second at \<open>?x=1\<close>, sixty
  milliseconds after a binding of the second scope has stored \<open>x = 2\<close>.
\<close>

definition two_scopes :: module where
  "two_scopes =
     elapse 60 (storeInURL 1 ''x'' (JStr ''2'')
       (snd (useQsStateCreator ''?x=1'' (one_scope ''?val=cat''))))"

text \<open>A definition whose key is an array index, and one whose default is an object.\<close>

definition page_five :: QsStateDefinition where
  "page_five = animal\<lparr>key := ''5''\<rparr>"

definition sort_option :: QsStateDefinition where
  "sort_option = animal\<lparr>default_val := JObj 1 [(''a'', JNum 1)]\<rparr>"

text \<open>A definition whose key names a member of \<open>Object.prototype\<close>.\<close>

definition inherited_key :: QsStateDefinition where
  "inherited_key = animal\<lparr>key := ''toString'', default_val := JStr ''x''\<rparr>"

section \<open>Notions used to state the claim on the order of the keys\<close>

text \<open>The number that a string of decimal digits writes.\<close>

definition dec_val :: "string \<Rightarrow> int" where
  "dec_val s = foldl (\<lambda>a c. 10 * a + digit_val c) 0 s"

text \<open>The keys of a list that are no array indices, in the order of the list.\<close>

definition other_keys :: "string list \<Rightarrow> string list" where
  "other_keys ks = filter (\<lambda>k. array_index k = None) ks"

text \<open>
  The key order of an object: the keys that are array indices first, in strictly
  ascending numeric order, then the other keys.
\<close>

fun key_order :: "string list \<Rightarrow> bool" where
  "key_order [] = True"
| "key_order [k] = True"
| "key_order (k # k' # ks) =
     ((case (array_index k, array_index k') of
         (Some m, Some n) \<Rightarrow> m < n
       | (Some m, None) \<Rightarrow> True
       | (None, Some n) \<Rightarrow> False
       | (None, None) \<Rightarrow> True)
      \<and> key_order (k' # ks))"

section \<open>Notions used to state and prove the claim on the equality\<close>

text \<open>The keys that \<open>JSON.stringify\<close> writes for an object, in the order it writes them.\<close>

fun json_keys :: "(string \<times> jsval) list \<Rightarrow> string list" where
  "json_keys [] = []"
| "json_keys ((k, v) # es) =
     (case JSON_stringify v of None \<Rightarrow> json_keys es | Some s \<Rightarrow> k # json_keys es)"

text \<open>
  The content of a value: the value without the identities of the objects and arrays in
  it. Two values are structurally equal when their contents are equal.
\<close>

fun content :: "jsval \<Rightarrow> jsval"
  and content_elements :: "jsval list \<Rightarrow> jsval list"
  and content_members :: "(string \<times> jsval) list \<Rightarrow> (string \<times> jsval) list" where
  "content (JObj r es) = JObj 0 (content_members es)"
| "content (JArr r xs) = JArr 0 (content_elements xs)"
| "content JUndefined = JUndefined"
| "content JNull = JNull"
| "content (JBool b) = JBool b"
| "content (JNum n) = JNum n"
| "content (JStr s) = JStr s"
| "content (JFun r) = JFun r"
| "content_elements [] = []"
| "content_elements (x # xs) = content x # content_elements xs"
| "content_members [] = []"
| "content_members ((k, v) # es) = (k, content v) # content_members es"

text \<open>
  For the proofs: a JSON text inside an object or an array is followed by \<open>,\<close>, \<open>}\<close> or
  \<open>]\<close>, and the first character of a JSON text tells the kind of the value.
\<close>

definition delimited :: "string \<Rightarrow> bool" where
  "delimited t = (case t of [] \<Rightarrow> True | c # r \<Rightarrow> c \<in> set '',}]'')"

fun json_kind :: "jsval \<Rightarrow> nat" where
  "json_kind JNull = 1"
| "json_kind (JBool b) = 2"
| "json_kind (JNum n) = 3"
| "json_kind (JStr s) = 4"
| "json_kind (JObj r es) = 5"
| "json_kind (JArr r xs) = 6"
| "json_kind v = 0"

definition char_kind :: "char \<Rightarrow> nat" where
  "char_kind c =
     (if c = CHR ''n'' then 1 else if c \<in> set ''tf'' then 2
      else if c \<in> set ''-0123456789'' then 3 else if c = CHR 0x22 then 4
      else if c = CHR ''{'' then 5 else if c = CHR ''['' then 6 else 0)"

section \<open>Properties of plain objects\<close>

lemma keys_insert_index_mem:
  "x \<in> fst ` set (insert_index n k v es) \<longleftrightarrow> x = k \<or> x \<in> fst ` set es"
proof (induction es)
  case Nil
  then show ?case by simp
next
  case (Cons e es)
  obtain k' v' where e: "e = (k', v')" by (cases e)
  show ?case
  proof (cases "array_index k'")
    case None
    with e show ?thesis by auto
  next
    case (Some m)
    with e Cons show ?thesis by (cases "m < n") auto
  qed
qed

lemma fst_set_insert_index: "fst ` set (insert_index n k v es) = insert k (fst ` set es)"
  using keys_insert_index_mem by blast

lemma map_of_insert_index:
  "k \<notin> fst ` set es \<Longrightarrow> map_of (insert_index n k v es) = (map_of es)(k \<mapsto> v)"
  by (induction es) (auto split: option.splits simp: fun_upd_twist)

lemma map_of_replace_value:
  "map_of (replace_value k v es) x
     = (if x = k then map_option (\<lambda>_. v) (map_of es k) else map_of es x)"
  by (induction es) auto

lemma keys_replace_value: "map fst (replace_value k v es) = map fst es"
  by (induction es) auto

lemma fst_set_replace_value: "fst ` set (replace_value k v es) = fst ` set es"
  using keys_replace_value [of k v es] by (metis list.set_map)

lemma keys_insert_index_filter:
  "k \<notin> fst ` set es \<Longrightarrow> filter (\<lambda>k'. k' \<noteq> k) (map fst (insert_index n k v es)) = map fst es"
proof (induction es)
  case Nil
  then show ?case by simp
next
  case (Cons e es)
  from Cons.prems have "filter (\<lambda>k'. k' \<noteq> k) (map fst (e # es)) = map fst (e # es)"
    by (auto simp: filter_id_conv)
  with Cons show ?case by (cases e) (auto split: option.splits)
qed

lemma fst_set_obj_set: "fst ` set (obj_set k v obj) = insert k (fst ` set obj)"
  by (auto simp: obj_set_def fst_set_replace_value fst_set_insert_index split: option.splits)

lemma map_of_obj_set: "map_of (obj_set k v obj) = (map_of obj)(k \<mapsto> v)"
proof (cases "k \<in> fst ` set obj")
  case True
  then obtain w where "map_of obj k = Some w"
    by (metis domD dom_map_of_conv_image_fst)
  then show ?thesis using True by (auto simp: obj_set_def map_of_replace_value)
next
  case False
  then have "map_of obj k = None" by (simp add: map_of_eq_None_iff)
  then have "map_of (obj @ [(k, v)]) = (map_of obj)(k \<mapsto> v)"
    by (auto simp: map_add_def split: option.splits)
  with False show ?thesis by (auto simp: obj_set_def map_of_insert_index split: option.splits)
qed

lemma distinct_insert_index:
  "k \<notin> fst ` set es \<Longrightarrow> distinct (map fst es) \<Longrightarrow> distinct (map fst (insert_index n k v es))"
proof (induction es)
  case Nil
  then show ?case by simp
next
  case (Cons e es)
  obtain k' v' where e: "e = (k', v')" by (cases e)
  from Cons.prems have "k \<notin> fst ` set es" "distinct (map fst es)" by auto
  then have ih: "distinct (map fst (insert_index n k v es))" by (rule Cons.IH)
  have "k' \<notin> fst ` set (insert_index n k v es)"
    using Cons.prems e by (auto simp: fst_set_insert_index)
  with ih Cons.prems e show ?case by (auto split: option.splits)
qed

lemma distinct_obj_set: "distinct (map fst obj) \<Longrightarrow> distinct (map fst (obj_set k v obj))"
  by (auto simp: obj_set_def keys_replace_value distinct_insert_index split: option.splits)

lemma spread_Nil [simp]: "spread t [] = t"
  by (simp add: spread_def)

lemma spread_Cons [simp]: "spread t ((k, v) # s) = spread (obj_set k v t) s"
  by (simp add: spread_def)

lemma distinct_spread: "distinct (map fst t) \<Longrightarrow> distinct (map fst (spread t s))"
  by (induction s arbitrary: t) (auto simp: distinct_obj_set)

lemma fst_set_spread: "fst ` set (spread t s) = fst ` set t \<union> fst ` set s"
proof (induction s arbitrary: t)
  case Nil
  then show ?case by simp
next
  case (Cons e s)
  obtain k v where e: "e = (k, v)" by (cases e)
  have "fst ` set (spread t (e # s)) = insert k (fst ` set t) \<union> fst ` set s"
    using Cons.IH [of "obj_set k v t"] e by (simp add: fst_set_obj_set)
  then show ?case using e by simp
qed

lemma map_of_spread:
  "distinct (map fst s) \<Longrightarrow> map_of (spread t s) = map_of t ++ map_of s"
proof (induction s arbitrary: t)
  case Nil
  then show ?case by simp
next
  case (Cons e s)
  obtain k v where e: "e = (k, v)" by (cases e)
  from Cons.prems e have k: "map_of s k = None" and d: "distinct (map fst s)"
    by (auto simp: map_of_eq_None_iff)
  have "map_of (spread t (e # s)) = (map_of t)(k \<mapsto> v) ++ map_of s"
    using Cons.IH [OF d, of "obj_set k v t"] e by (simp only: spread_Cons map_of_obj_set)
  also have "\<dots> = map_of t ++ map_of (e # s)"
  proof
    fix x
    show "((map_of t)(k \<mapsto> v) ++ map_of s) x = (map_of t ++ map_of (e # s)) x"
      using k e by (cases "x = k") (auto simp: map_add_def split: option.splits)
  qed
  finally show ?case .
qed

lemma spread_wf: "spread [] s = s' \<Longrightarrow> distinct (map fst s')"
  using distinct_spread [of "[]" s] by auto

lemma keys_insert_index_filter_mem:
  assumes "k \<notin> fst ` set es"
  shows "filter (\<lambda>x. x \<in> fst ` set es) (map fst (insert_index n k v es)) = map fst es"
proof -
  have "filter (\<lambda>x. x \<in> fst ` set es) (map fst (insert_index n k v es))
      = filter (\<lambda>k'. k' \<noteq> k) (map fst (insert_index n k v es))"
    using assms by (intro filter_cong refl) (auto simp: keys_insert_index_mem)
  then show ?thesis using assms by (simp add: keys_insert_index_filter)
qed

lemma keys_obj_set_filter:
  "filter (\<lambda>x. x \<in> fst ` set obj) (map fst (obj_set k v obj)) = map fst obj"
proof (cases "k \<in> fst ` set obj")
  case True
  have "filter (\<lambda>x. x \<in> fst ` set obj) (map fst obj) = map fst obj"
    by (simp add: filter_id_conv)
  with True show ?thesis by (simp add: obj_set_def keys_replace_value)
next
  case False
  then have "filter (\<lambda>x. x \<in> fst ` set obj) (map fst (obj @ [(k, v)])) = map fst obj"
    by (simp add: filter_id_conv)
  with False show ?thesis
    by (simp add: obj_set_def keys_insert_index_filter_mem split: option.splits)
qed

lemma keys_spread_filter:
  "filter (\<lambda>x. x \<in> fst ` set t) (map fst (spread t s)) = map fst t"
proof (induction s arbitrary: t)
  case Nil
  then show ?case by (simp add: filter_id_conv)
next
  case (Cons e s)
  obtain k v where e: "e = (k, v)" by (cases e)
  let ?t' = "obj_set k v t"
  have sub: "x \<in> fst ` set t \<Longrightarrow> x \<in> fst ` set ?t'" for x
    by (simp add: fst_set_obj_set)
  have "filter (\<lambda>x. x \<in> fst ` set t) (map fst (spread ?t' s))
      = filter (\<lambda>x. x \<in> fst ` set t) (filter (\<lambda>x. x \<in> fst ` set ?t') (map fst (spread ?t' s)))"
    using sub by (simp add: conj_commute cong: conj_cong filter_cong)
  also have "\<dots> = filter (\<lambda>x. x \<in> fst ` set t) (map fst ?t')"
    by (simp only: Cons.IH)
  also have "\<dots> = map fst t" by (rule keys_obj_set_filter)
  finally show ?case using e by simp
qed

lemma keys_obj_set_new:
  "k \<notin> fst ` set obj \<Longrightarrow> array_index k = None \<Longrightarrow> map fst (obj_set k v obj) = map fst obj @ [k]"
  by (simp add: obj_set_def)

lemma keys_obj_set_old:
  "k \<in> fst ` set obj \<Longrightarrow> map fst (obj_set k v obj) = map fst obj"
  by (simp add: obj_set_def keys_replace_value)

lemma keys_spread_append:
  assumes "distinct (map fst s)"
    and "\<forall>k \<in> fst ` set s. k \<notin> fst ` set t \<longrightarrow> array_index k = None"
  shows "map fst (spread t s) = map fst t @ filter (\<lambda>k. k \<notin> fst ` set t) (map fst s)"
  using assms
proof (induction s arbitrary: t)
  case Nil
  then show ?case by simp
next
  case (Cons e s)
  obtain k v where e: "e = (k, v)" by (cases e)
  from Cons.prems e have d: "distinct (map fst s)" and ks: "k \<notin> fst ` set s" by auto
  let ?t' = "obj_set k v t"
  have p: "\<forall>k' \<in> fst ` set s. k' \<notin> fst ` set ?t' \<longrightarrow> array_index k' = None"
    using Cons.prems(2) by (auto simp: fst_set_obj_set)
  have ih: "map fst (spread ?t' s) = map fst ?t' @ filter (\<lambda>k. k \<notin> fst ` set ?t') (map fst s)"
    using Cons.IH [OF d p] .
  have f: "filter (\<lambda>x. x \<notin> fst ` set ?t') (map fst s) = filter (\<lambda>x. x \<notin> fst ` set t) (map fst s)"
    using ks by (intro filter_cong refl) (auto simp: fst_set_obj_set)
  show ?case
  proof (cases "k \<in> fst ` set t")
    case True
    with ih f e show ?thesis by (simp add: keys_obj_set_old)
  next
    case False
    with Cons.prems(2) e have "array_index k = None" by auto
    with False ih f e show ?thesis by (simp add: keys_obj_set_new)
  qed
qed

section \<open>Properties of the committer\<close>

lemma map_of_skipNulls:
  "distinct (map fst obj) \<Longrightarrow>
   map_of (skipNulls obj) k =
     (case map_of obj k of
        None \<Rightarrow> None
      | Some v \<Rightarrow> if v = JNull \<or> v = JUndefined then None else Some v)"
proof (induction obj)
  case Nil
  then show ?case by (simp add: skipNulls_def)
next
  case (Cons e obj)
  obtain k' v' where e: "e = (k', v')" by (cases e)
  from Cons.prems e have n: "map_of obj k' = None" by (auto simp: map_of_eq_None_iff)
  from Cons e n show ?case
    by (auto simp: skipNulls_def split: option.splits)
qed

lemma skipNulls_obj_delete:
  "distinct (map fst obj) \<Longrightarrow> map_of obj k = Some JNull \<Longrightarrow>
   skipNulls (obj_delete k obj) = skipNulls obj"
proof (induction obj)
  case Nil
  then show ?case by simp
next
  case (Cons e obj)
  obtain k' v' where e: "e = (k', v')" by (cases e)
  show ?case
  proof (cases "k' = k")
    case True
    with Cons.prems e have "k \<notin> fst ` set obj" "v' = JNull" by auto
    then have "obj_delete k obj = obj"
      by (auto simp: obj_delete_def filter_id_conv image_iff)
    with True e \<open>v' = JNull\<close> show ?thesis by (simp add: obj_delete_def skipNulls_def)
  next
    case False
    with Cons e show ?thesis by (auto simp: obj_delete_def skipNulls_def)
  qed
qed

lemma distinct_qsObject: "distinct (map fst (qsObject c loc queue))"
  by (simp add: qsObject_def distinct_spread)

lemma map_of_qsObject:
  "distinct (map fst queue) \<Longrightarrow>
   map_of (qsObject c loc queue) = map_of (spread [] (parse c loc)) ++ map_of queue"
  by (simp add: qsObject_def map_of_spread)

lemma length_scopes_commit [simp]: "length (scopes (commit sid m)) = length (scopes m)"
  by (simp add: commit_def)

lemma length_scopes_storeInURL [simp]: "length (scopes (storeInURL sid k v m)) = length (scopes m)"
  by (simp add: storeInURL_def)

lemma length_scopes_elapse [simp]: "length (scopes (elapse dt m)) = length (scopes m)"
  by (simp add: elapse_def)

lemma commitQueue_elapse [simp]: "commitQueue (elapse dt m) = commitQueue m"
  by (simp add: elapse_def)

lemma commitQueue_storeInURL:
  "commitQueue (storeInURL sid k v m) = obj_set k v (spread [] (commitQueue m))"
  by (simp add: storeInURL_def commit_def)

lemma distinct_commitQueue_storeInURL:
  "distinct (map fst (commitQueue (storeInURL sid k v m)))"
  by (simp add: commitQueue_storeInURL distinct_obj_set distinct_spread)

lemma map_of_commitQueue_storeInURL:
  "distinct (map fst (commitQueue m)) \<Longrightarrow>
   map_of (commitQueue (storeInURL sid k v m)) = (map_of (commitQueue m))(k \<mapsto> v)"
  by (simp add: commitQueue_storeInURL map_of_obj_set map_of_spread)

lemma scope_storeInURL:
  "sid < length (scopes m) \<Longrightarrow>
   scopes (storeInURL sid k v m) ! j
     = (if j = sid then (scopes m ! sid)\<lparr>timer := Some COMMIT_DELAY\<rparr> else scopes m ! j)"
  by (simp add: storeInURL_def commit_def)

lemma scope_elapse:
  "j < length (scopes m) \<Longrightarrow>
   scopes (elapse dt m) ! j
     = (scopes m ! j)\<lparr>timer := map_option (\<lambda>r. if r \<le> dt then 0 else r - dt) (timer (scopes m ! j))\<rparr>"
  by (simp add: elapse_def)

lemma timer_fires_due:
  "sid < length (scopes m) \<Longrightarrow> timer (scopes m ! sid) = Some 0 \<Longrightarrow>
   timer_fires c sid m =
     m\<lparr>scopes := (scopes m)[sid := (scopes m ! sid)
          \<lparr>timer := None,
           committed := committed (scopes m ! sid)
              @ [qs_stringify c (qsObject c (location (scopes m ! sid)) (commitQueue m))]\<rparr>],
       commitQueue := []\<rparr>"
  by (simp add: timer_fires_def commit_now_def Let_def)

lemma timer_fires_not_due:
  "timer (scopes m ! sid) \<noteq> Some 0 \<Longrightarrow> timer_fires c sid m = m"
  by (simp add: timer_fires_def)

lemma timer_elapse_storeInURL:
  assumes "sid < length (scopes m)"
  shows "timer (scopes (elapse dt (storeInURL sid k v m)) ! sid)
           = Some (if COMMIT_DELAY \<le> dt then 0 else COMMIT_DELAY - dt)"
  using assms by (simp add: scope_elapse scope_storeInURL)

lemma committed_elapse:
  "j < length (scopes m) \<Longrightarrow> committed (scopes (elapse dt m) ! j) = committed (scopes m ! j)"
  by (simp add: scope_elapse)

lemma location_elapse:
  "j < length (scopes m) \<Longrightarrow> location (scopes (elapse dt m) ! j) = location (scopes m ! j)"
  by (simp add: scope_elapse)

lemma committed_storeInURL:
  "j < length (scopes m) \<Longrightarrow>
   committed (scopes (storeInURL sid k v m) ! j) = committed (scopes m ! j)"
  by (simp add: storeInURL_def commit_def nth_list_update)

lemma location_storeInURL:
  "j < length (scopes m) \<Longrightarrow>
   location (scopes (storeInURL sid k v m) ! j) = location (scopes m ! j)"
  by (simp add: storeInURL_def commit_def nth_list_update)

text \<open>The keys of the queue are distinct in every state the operations reach.\<close>

lemma distinct_commitQueue_preserved:
  assumes "distinct (map fst (commitQueue m))"
  shows "distinct (map fst (commitQueue (storeInURL sid k v m)))"
    and "distinct (map fst (commitQueue (elapse dt m)))"
    and "distinct (map fst (commitQueue (timer_fires c sid m)))"
    and "distinct (map fst (commitQueue (set_location sid loc m)))"
    and "distinct (map fst (commitQueue (snd (useQsStateCreator loc m))))"
    and "distinct (map fst (commitQueue (snd (setValue call def sid newValue (b, m)))))"
  using assms
  by (simp_all add: distinct_commitQueue_storeInURL timer_fires_def commit_now_def Let_def
      set_location_def useQsStateCreator_def setValue_def)

lemma distinct_commitQueue_init: "distinct (map fst (commitQueue module_init))"
  by (simp add: module_init_def)

section \<open>Properties of the key order\<close>

lemma dec_val_snoc: "dec_val (s @ [c]) = 10 * dec_val s + digit_val c"
  by (simp add: dec_val_def)

lemma digit_val_range: "is_digit c \<Longrightarrow> 0 \<le> digit_val c \<and> digit_val c \<le> 9"
  by (auto simp: is_digit_def digit_val_def)

lemma digit_val_inj: "is_digit c \<Longrightarrow> is_digit d \<Longrightarrow> digit_val c = digit_val d \<Longrightarrow> c = d"
  by (auto simp: is_digit_def digit_val_def)

lemma digit_val_zero: "is_digit c \<Longrightarrow> digit_val c = 0 \<Longrightarrow> c = CHR ''0''"
  by (auto simp: is_digit_def digit_val_def)

lemma dec_val_nonneg: "list_all is_digit s \<Longrightarrow> 0 \<le> dec_val s"
proof (induction s rule: rev_induct)
  case Nil
  then show ?case by (simp add: dec_val_def)
next
  case (snoc c s)
  then have "0 \<le> dec_val s" "0 \<le> digit_val c" using digit_val_range by auto
  then show ?case by (simp add: dec_val_snoc)
qed

lemma dec_val_pos:
  "list_all is_digit s \<Longrightarrow> s \<noteq> [] \<Longrightarrow> hd s \<noteq> CHR ''0'' \<Longrightarrow> 0 < dec_val s"
proof (induction s rule: rev_induct)
  case Nil
  then show ?case by simp
next
  case (snoc c s)
  show ?case
  proof (cases "s = []")
    case True
    with snoc.prems have "is_digit c" "c \<noteq> CHR ''0''" by auto
    then have "digit_val c \<noteq> 0" "0 \<le> digit_val c"
      using digit_val_zero digit_val_range by auto
    with True show ?thesis by (simp add: dec_val_def)
  next
    case False
    with snoc have "0 < dec_val s" by auto
    moreover from snoc.prems have "0 \<le> digit_val c" using digit_val_range by auto
    ultimately show ?thesis by (simp add: dec_val_snoc)
  qed
qed

lemma dec_val_inj:
  assumes "list_all is_digit s" and "list_all is_digit t"
    and "s = [] \<or> hd s \<noteq> CHR ''0''" and "t = [] \<or> hd t \<noteq> CHR ''0''"
    and "dec_val s = dec_val t"
  shows "s = t"
  using assms
proof (induction s arbitrary: t rule: rev_induct)
  case Nil
  show ?case
  proof (rule ccontr)
    assume "[] \<noteq> t"
    with Nil have "0 < dec_val t" using dec_val_pos by auto
    with Nil show False by (simp add: dec_val_def)
  qed
next
  case (snoc c s)
  from snoc.prems have ps: "0 < dec_val (s @ [c])" using dec_val_pos [of "s @ [c]"] by auto
  have "t \<noteq> []"
  proof
    assume "t = []"
    with snoc.prems(5) ps show False by (simp add: dec_val_def)
  qed
  then obtain t' d where t: "t = t' @ [d]" by (metis rev_exhaust)
  from snoc.prems t have dc: "is_digit c" and dd: "is_digit d"
    and ds: "list_all is_digit s" and dt: "list_all is_digit t'" by auto
  from snoc.prems(5) t have e: "10 * dec_val s + digit_val c = 10 * dec_val t' + digit_val d"
    by (simp add: dec_val_snoc)
  from digit_val_range [OF dc] digit_val_range [OF dd] e
  have v: "digit_val c = digit_val d" and w: "dec_val s = dec_val t'" by arith+
  from snoc.prems(3) have hs: "s = [] \<or> hd s \<noteq> CHR ''0''" by (cases s) auto
  from snoc.prems(4) t have ht: "t' = [] \<or> hd t' \<noteq> CHR ''0''" by (cases t') auto
  from snoc.IH [OF ds dt hs ht w] digit_val_inj [OF dc dd v] t show ?case by simp
qed

lemma array_index_inj:
  assumes "array_index k = Some n" and "array_index k' = Some n"
  shows "k = k'"
proof -
  have c: "s \<noteq> [] \<and> list_all is_digit s \<and> (hd s = CHR ''0'' \<longrightarrow> length s = 1) \<and> dec_val s = n"
    if "array_index s = Some n" for s
    using that by (auto simp: array_index_def dec_val_def Let_def split: if_splits)
  have z: "s = ''0''" if "array_index s = Some n" and "hd s = CHR ''0''" for s
  proof -
    from c [OF that(1)] that(2) have "length s = 1" "s \<noteq> []" by auto
    with that(2) show ?thesis by (cases s) auto
  qed
  have zero: "n = 0" if "array_index s = Some n" and "hd s = CHR ''0''" for s
    using z [OF that] c [OF that(1)] by (simp add: dec_val_def digit_val_def)
  have pos: "0 < n" if "array_index s = Some n" and "hd s \<noteq> CHR ''0''" for s
    using c [OF that(1)] that(2) dec_val_pos [of s] by auto
  show ?thesis
  proof (cases "hd k = CHR ''0''")
    case True
    then have "n = 0" using zero assms(1) by blast
    with pos [OF assms(2)] have "hd k' = CHR ''0''" by auto
    with z assms True show ?thesis by metis
  next
    case False
    then have "0 < n" using pos assms(1) by blast
    with zero [OF assms(2)] have h: "hd k' \<noteq> CHR ''0''" by auto
    from c [OF assms(1)] c [OF assms(2)] False h show ?thesis
      by (intro dec_val_inj) auto
  qed
qed

lemma key_order_Cons:
  "key_order (k # ks) \<longleftrightarrow>
     (case ks of [] \<Rightarrow> True
      | k' # ks' \<Rightarrow>
          (case (array_index k, array_index k') of
             (Some m, Some n) \<Rightarrow> m < n
           | (Some m, None) \<Rightarrow> True
           | (None, Some n) \<Rightarrow> False
           | (None, None) \<Rightarrow> True) \<and> key_order ks)"
  by (cases ks) simp_all

lemma key_order_tl: "key_order (k # ks) \<Longrightarrow> key_order ks"
  by (cases ks) simp_all

text \<open>After a key that is no array index there are no array indices.\<close>

lemma key_order_other_first:
  "key_order (k # ks) \<Longrightarrow> array_index k = None \<Longrightarrow> k' \<in> set ks \<Longrightarrow> array_index k' = None"
proof (induction ks arbitrary: k)
  case Nil
  then show ?case by simp
next
  case (Cons a ks)
  from Cons.prems(1,2) have a: "array_index a = None" and o: "key_order (a # ks)"
    by (auto split: option.splits)
  show ?case
  proof (cases "k' = a")
    case True
    with a show ?thesis by simp
  next
    case False
    with Cons.prems(3) have "k' \<in> set ks" by simp
    with Cons.IH [OF o a] show ?thesis .
  qed
qed

text \<open>The array indices after an array index are larger.\<close>

lemma key_order_index_first:
  "key_order (k # ks) \<Longrightarrow> array_index k = Some m \<Longrightarrow> k' \<in> set ks \<Longrightarrow>
   array_index k' = Some n \<Longrightarrow> m < n"
proof (induction ks arbitrary: k m)
  case Nil
  then show ?case by simp
next
  case (Cons a ks)
  from Cons.prems(1) have o: "key_order (a # ks)" by (rule key_order_tl)
  show ?case
  proof (cases "array_index a")
    case None
    from Cons.prems(3) have "k' = a \<or> k' \<in> set ks" by auto
    then have "array_index k' = None"
      using None key_order_other_first [OF o None] by auto
    with Cons.prems(4) show ?thesis by simp
  next
    case (Some j)
    with Cons.prems(1,2) have mj: "m < j" by simp
    show ?thesis
    proof (cases "k' = a")
      case True
      with Some Cons.prems(4) mj show ?thesis by simp
    next
      case False
      with Cons.prems(3) have "k' \<in> set ks" by simp
      from Cons.IH [OF o Some this Cons.prems(4)] mj show ?thesis by simp
    qed
  qed
qed

lemma key_order_append_other:
  "key_order ks \<Longrightarrow> array_index k = None \<Longrightarrow> key_order (ks @ [k])"
proof (induction ks rule: key_order.induct)
  case 1
  then show ?case by simp
next
  case (2 a)
  then show ?case by (simp split: option.splits)
next
  case (3 a b ks)
  then show ?case by simp
qed

lemma key_order_insert_index:
  assumes "key_order (map fst es)" and "array_index k = Some n" and "k \<notin> fst ` set es"
  shows "key_order (map fst (insert_index n k v es))"
  using assms
proof (induction es)
  case Nil
  then show ?case by simp
next
  case (Cons e es)
  obtain k' v' where e: "e = (k', v')" by (cases e)
  from Cons.prems(1) e have o: "key_order (k' # map fst es)" by simp
  then have o': "key_order (map fst es)" by (rule key_order_tl)
  from Cons.prems(3) e have nk: "k \<noteq> k'" and nes: "k \<notin> fst ` set es" by auto
  show ?case
  proof (cases "array_index k'")
    case None
    with e o Cons.prems(2) show ?thesis by simp
  next
    case (Some m)
    have mn: "m \<noteq> n" using array_index_inj [of k' n k] Some Cons.prems(2) nk by auto
    show ?thesis
    proof (cases "m < n")
      case False
      with mn have "n < m" by simp
      with e o Some Cons.prems(2) False show ?thesis by simp
    next
      case True
      have ih: "key_order (map fst (insert_index n k v es))"
        using Cons.IH [OF o' Cons.prems(2) nes] .
      have "key_order (k' # map fst (insert_index n k v es))"
      proof (cases es)
        case Nil
        with Some True Cons.prems(2) show ?thesis by simp
      next
        case (Cons e2 es2)
        obtain k2 v2 where e2: "e2 = (k2, v2)" by (cases e2)
        show ?thesis
        proof (cases "array_index k2")
          case None
          with Cons e2 Some True \<open>array_index k = Some n\<close> o show ?thesis by simp
        next
          case j: (Some j)
          with o Cons e2 Some have mj: "m < j" by simp
          show ?thesis
          proof (cases "j < n")
            case True
            from ih Cons e2 j True have "key_order (k2 # map fst (insert_index n k v es2))"
              by simp
            with Cons e2 j True Some mj show ?thesis by simp
          next
            case False
            from o Cons e2 have "key_order (k2 # map fst es2)" by (simp add: key_order_tl)
            with Cons e2 j False Some \<open>m < n\<close> \<open>array_index k = Some n\<close> ih show ?thesis by simp
          qed
        qed
      qed
      with e Some True show ?thesis by simp
    qed
  qed
qed

lemma key_order_obj_set: "key_order (map fst obj) \<Longrightarrow> key_order (map fst (obj_set k v obj))"
  by (auto simp: obj_set_def keys_replace_value key_order_insert_index key_order_append_other
      split: option.splits)

lemma key_order_spread: "key_order (map fst t) \<Longrightarrow> key_order (map fst (spread t s))"
  by (induction s arbitrary: t) (auto simp: key_order_obj_set)

lemma other_keys_insert_index:
  "array_index k = Some n \<Longrightarrow> other_keys (map fst (insert_index n k v es)) = other_keys (map fst es)"
  by (induction es) (auto simp: other_keys_def split: option.splits)

lemma other_keys_append: "other_keys (ks @ ks') = other_keys ks @ other_keys ks'"
  by (simp add: other_keys_def)

lemma other_keys_single: "other_keys [k] = (if array_index k = None then [k] else [])"
  by (simp add: other_keys_def)

lemma other_keys_obj_set:
  "other_keys (map fst (obj_set k v obj))
     = (if k \<in> fst ` set obj \<or> array_index k \<noteq> None then other_keys (map fst obj)
        else other_keys (map fst obj) @ [k])"
proof (cases "k \<in> fst ` set obj")
  case True
  then show ?thesis by (simp add: obj_set_def keys_replace_value)
next
  case False
  show ?thesis
  proof (cases "array_index k")
    case None
    with False show ?thesis by (simp add: obj_set_def other_keys_append other_keys_single)
  next
    case (Some n)
    with False show ?thesis by (simp add: obj_set_def other_keys_insert_index)
  qed
qed

lemma other_keys_spread:
  assumes "distinct (map fst s)"
  shows "other_keys (map fst (spread t s))
           = other_keys (map fst t) @ filter (\<lambda>k. k \<notin> fst ` set t) (other_keys (map fst s))"
  using assms
proof (induction s arbitrary: t)
  case Nil
  then show ?case by (simp add: other_keys_def)
next
  case (Cons e s)
  obtain k v where e: "e = (k, v)" by (cases e)
  from Cons.prems e have d: "distinct (map fst s)" and ks: "k \<notin> fst ` set s" by auto
  let ?t' = "obj_set k v t"
  have ih: "other_keys (map fst (spread ?t' s))
      = other_keys (map fst ?t') @ filter (\<lambda>k. k \<notin> fst ` set ?t') (other_keys (map fst s))"
    using Cons.IH [OF d] .
  have f: "filter (\<lambda>x. x \<notin> fst ` set ?t') (other_keys (map fst s))
         = filter (\<lambda>x. x \<notin> fst ` set t) (other_keys (map fst s))"
    using ks by (intro filter_cong refl) (auto simp: fst_set_obj_set other_keys_def)
  have c: "other_keys (map fst (e # s)) = other_keys [k] @ other_keys (map fst s)"
    using e other_keys_append [of "[k]" "map fst s"] by simp
  have "other_keys (map fst (spread t (e # s)))
      = other_keys (map fst ?t') @ filter (\<lambda>x. x \<notin> fst ` set t) (other_keys (map fst s))"
    using ih f e by simp
  also have "\<dots> = other_keys (map fst t)
      @ filter (\<lambda>x. x \<notin> fst ` set t) (other_keys [k] @ other_keys (map fst s))"
    by (simp add: other_keys_obj_set other_keys_single)
  finally show ?case using c by simp
qed

lemma keys_skipNulls:
  "distinct (map fst obj) \<Longrightarrow>
   Object_keys (skipNulls obj)
     = filter (\<lambda>k. k \<in> set (Object_keys (skipNulls obj))) (Object_keys obj)"
proof (induction obj)
  case Nil
  then show ?case by (simp add: skipNulls_def Object_keys_def)
next
  case (Cons e obj)
  obtain k v where e: "e = (k, v)" by (cases e)
  from Cons.prems e have k: "k \<notin> fst ` set obj" and d: "distinct (map fst obj)" by auto
  have ih: "map fst (skipNulls obj)
      = filter (\<lambda>x. x \<in> fst ` set (skipNulls obj)) (map fst obj)"
    using Cons.IH [OF d] by (simp add: Object_keys_def)
  have g: "filter (\<lambda>x. x \<in> fst ` set (skipNulls (e # obj))) (map fst obj)
         = filter (\<lambda>x. x \<in> fst ` set (skipNulls obj)) (map fst obj)"
  proof (intro filter_cong refl)
    fix x
    assume "x \<in> set (map fst obj)"
    with k have "x \<noteq> k" by auto
    then show "(x \<in> fst ` set (skipNulls (e # obj))) = (x \<in> fst ` set (skipNulls obj))"
      using e by (auto simp: skipNulls_def)
  qed
  show ?case
  proof (cases "v \<noteq> JNull \<and> v \<noteq> JUndefined")
    case True
    then have s: "skipNulls (e # obj) = e # skipNulls obj"
      using e by (simp add: skipNulls_def)
    have m: "fst e \<in> fst ` set (skipNulls (e # obj))" unfolding s by simp
    have "filter (\<lambda>x. x \<in> fst ` set (skipNulls (e # obj))) (map fst (e # obj))
        = fst e # filter (\<lambda>x. x \<in> fst ` set (skipNulls (e # obj))) (map fst obj)"
      using m by simp
    also have "\<dots> = fst e # map fst (skipNulls obj)" by (simp only: g ih [symmetric])
    also have "\<dots> = map fst (skipNulls (e # obj))" unfolding s by simp
    finally show ?thesis by (simp only: Object_keys_def list.set_map)
  next
    case False
    then have s: "skipNulls (e # obj) = skipNulls obj"
      using e by (auto simp: skipNulls_def)
    have "fst ` set (skipNulls obj) \<subseteq> fst ` set obj" by (auto simp: skipNulls_def)
    with k e have m: "fst e \<notin> fst ` set (skipNulls (e # obj))" unfolding s by auto
    have "filter (\<lambda>x. x \<in> fst ` set (skipNulls (e # obj))) (map fst (e # obj))
        = filter (\<lambda>x. x \<in> fst ` set (skipNulls (e # obj))) (map fst obj)"
      using m by simp
    also have "\<dots> = map fst (skipNulls obj)" by (simp only: g ih [symmetric])
    also have "\<dots> = map fst (skipNulls (e # obj))" unfolding s by simp
    finally show ?thesis by (simp only: Object_keys_def list.set_map)
  qed
qed

section \<open>Properties of the binding\<close>

lemma strict_eq_refl: "strict_eq v v"
  by (cases v) simp_all

lemma getValueFromURL_own_key:
  assumes "Object_prototype (key def) = None"
  shows "getValueFromURL c def searchString =
     (let raw = (case map_of (parse c searchString) (key def) of
                   None \<Rightarrow> JUndefined | Some s \<Rightarrow> s);
          candidate = (case hydrator def of None \<Rightarrow> raw | Some h \<Rightarrow> h raw);
          valid = (case validator def of
                     ArrayValidator options \<Rightarrow> indexOf options candidate \<noteq> -1
                   | FunValidator p \<Rightarrow> truthy (p candidate)
                   | NoValidator \<Rightarrow> truthy candidate)
      in if valid then candidate else default_val def)"
  using assms
  by (simp add: getValueFromURL_def prop_get_def hydrator_of_def identityFn_def validator_fn_def
      Let_def split: option.splits validator_option.splits)



lemma setValueState_value:
  "\<not> is_function v \<Longrightarrow> setValueState call v b = Some (b\<lparr>valueState := v\<rparr>)"
  by (cases v) (simp_all add: setValueState_def)






text \<open>
  The effect of the TypeScript module on a mounted binding: while the queue is not empty
  it makes no update; while the queue is empty it gives the value read from the location
  to the setter of the state if and only if that value differs, by \<open>isEqualObj\<close>, from
  the local state. The effect of the JavaScript copy is that effect at the empty queue.
\<close>

lemma ts_effect_gate:
  assumes "mounted b"
  shows "(queue \<noteq> [] \<longrightarrow> locSearch_effect c call def locSearch queue b = (None, Some b))
       \<and> (queue = [] \<longrightarrow>
            (let v = getValueFromURL c def locSearch in
               (fst (locSearch_effect c call def locSearch queue b) = Some v
                  \<longleftrightarrow> \<not> isEqualObj v (valueState b))
             \<and> (fst (locSearch_effect c call def locSearch queue b) = None
                  \<longleftrightarrow> isEqualObj v (valueState b))
             \<and> (\<not> is_function v \<longrightarrow>
                  snd (locSearch_effect c call def locSearch queue b)
                    = Some (if isEqualObj v (valueState b) then b else b\<lparr>valueState := v\<rparr>))))"
  using assms
  by (cases queue)
     (simp_all add: locSearch_effect_def Object_keys_def Let_def setValueState_value)

lemma js_effect_no_gate:
  "locSearch_effect_js c call def locSearch b = locSearch_effect c call def locSearch [] b"
  by (simp add: locSearch_effect_js_def locSearch_effect_def Object_keys_def Let_def)

section \<open>Properties of \<open>JSON.stringify\<close>\<close>

lemma hex_lower_inj:
  assumes "i < 16" and "j < 16" and "hex_lower i = hex_lower j"
  shows "i = j"
proof -
  have d: "distinct ''0123456789abcdef''" by simp
  have l: "length ''0123456789abcdef'' = 16" by simp
  from assms show ?thesis
    unfolding hex_lower_def using nth_eq_iff_index_eq [OF d, of i j] l by simp
qed

lemma control_char_eq:
  fixes c c' :: char
  assumes "hex_lower (of_char c div 16) = hex_lower (of_char c' div 16)"
    and "hex_lower (of_char c mod 16) = hex_lower (of_char c' mod 16)"
    and "(of_char c :: nat) < 32" and "(of_char c' :: nat) < 32"
  shows "c = c'"
proof -
  have "(of_char c :: nat) div 16 < 16" "(of_char c' :: nat) div 16 < 16"
    using assms(3,4) by simp_all
  with assms(1) have a: "(of_char c :: nat) div 16 = of_char c' div 16"
    by (rule hex_lower_inj [rotated 2])
  have "(of_char c :: nat) mod 16 < 16" "(of_char c' :: nat) mod 16 < 16" by simp_all
  with assms(2) have b: "(of_char c :: nat) mod 16 = of_char c' mod 16"
    by (rule hex_lower_inj [rotated 2])
  from a b have "(of_char c :: nat) = of_char c'"
    by (metis div_mult_mod_eq)
  then show ?thesis by simp
qed

lemma json_escape_char_plain_or_backslash:
  "(json_escape_char c = [c] \<and> c \<noteq> CHR 0x22 \<and> c \<noteq> CHR 0x5C)
   \<or> (\<exists>r. json_escape_char c = CHR 0x5C # r)"
  by (simp add: json_escape_char_def)

lemma json_escape_char_forms:
  "(json_escape_char c = [c] \<and> c \<noteq> CHR 0x5C \<and> c \<noteq> CHR 0x22)
   \<or> (\<exists>X. json_escape_char c = [CHR 0x5C, X] \<and> X \<noteq> CHR ''u'')
   \<or> (json_escape_char c = [CHR 0x5C, CHR ''u'', CHR ''0'', CHR ''0'',
          hex_lower (of_char c div 16), hex_lower (of_char c mod 16)]
        \<and> (of_char c :: nat) < 32)"
  by (simp add: json_escape_char_def)

lemma json_escape_char_short:
  "json_escape_char c = [CHR 0x5C, X] \<Longrightarrow>
   c = (if X = CHR 0x22 then CHR 0x22 else if X = CHR 0x5C then CHR 0x5C
        else if X = CHR ''b'' then CHR 0x08 else if X = CHR ''t'' then CHR 0x09
        else if X = CHR ''n'' then CHR 0x0A else if X = CHR ''f'' then CHR 0x0C
        else CHR 0x0D)"
  unfolding json_escape_char_def by (simp split: if_splits; blast)

lemma json_escape_char_prefix:
  assumes "json_escape_char c @ x = json_escape_char c' @ y"
  shows "c = c' \<and> x = y"
proof -
  consider (P) "json_escape_char c = [c]" "c \<noteq> CHR 0x5C"
    | (S) X where "json_escape_char c = [CHR 0x5C, X]" "X \<noteq> CHR ''u''"
    | (U) "json_escape_char c = [CHR 0x5C, CHR ''u'', CHR ''0'', CHR ''0'',
          hex_lower (of_char c div 16), hex_lower (of_char c mod 16)]" "(of_char c :: nat) < 32"
    using json_escape_char_forms [of c] by blast
  then show ?thesis
  proof cases
    case P
    consider (P') "json_escape_char c' = [c']" "c' \<noteq> CHR 0x5C"
      | (S') X' where "json_escape_char c' = [CHR 0x5C, X']" "X' \<noteq> CHR ''u''"
      | (U') "json_escape_char c' = [CHR 0x5C, CHR ''u'', CHR ''0'', CHR ''0'',
          hex_lower (of_char c' div 16), hex_lower (of_char c' mod 16)]" "(of_char c' :: nat) < 32"
      using json_escape_char_forms [of c'] by blast
    then show ?thesis
    proof cases
      case P' with P assms show ?thesis by simp
    next
      case S' with P assms show ?thesis by simp
    next
      case U' with P assms show ?thesis by simp
    qed
  next
    case S
    consider (P') "json_escape_char c' = [c']" "c' \<noteq> CHR 0x5C"
      | (S') X' where "json_escape_char c' = [CHR 0x5C, X']" "X' \<noteq> CHR ''u''"
      | (U') "json_escape_char c' = [CHR 0x5C, CHR ''u'', CHR ''0'', CHR ''0'',
          hex_lower (of_char c' div 16), hex_lower (of_char c' mod 16)]" "(of_char c' :: nat) < 32"
      using json_escape_char_forms [of c'] by blast
    then show ?thesis
    proof cases
      case P' with S assms show ?thesis by simp
    next
      case S'
      with S assms have "X = X'" "x = y" by simp_all
      with json_escape_char_short [OF S(1)] json_escape_char_short [OF S'(1)]
      show ?thesis by simp
    next
      case U' with S assms show ?thesis by simp
    qed
  next
    case U
    consider (P') "json_escape_char c' = [c']" "c' \<noteq> CHR 0x5C"
      | (S') X' where "json_escape_char c' = [CHR 0x5C, X']" "X' \<noteq> CHR ''u''"
      | (U') "json_escape_char c' = [CHR 0x5C, CHR ''u'', CHR ''0'', CHR ''0'',
          hex_lower (of_char c' div 16), hex_lower (of_char c' mod 16)]" "(of_char c' :: nat) < 32"
      using json_escape_char_forms [of c'] by blast
    then show ?thesis
    proof cases
      case P' with U assms show ?thesis by simp
    next
      case S' with U assms show ?thesis by simp
    next
      case U'
      with U assms have "hex_lower (of_char c div 16) = hex_lower (of_char c' div 16)"
        "hex_lower (of_char c mod 16) = hex_lower (of_char c' mod 16)" "x = y" by simp_all
      with control_char_eq [of c c'] U(2) U'(2) show ?thesis by simp
    qed
  qed
qed

lemma json_escape_char_not_quote:
  "json_escape_char c @ x \<noteq> CHR 0x22 # y"
  using json_escape_char_forms [of c] by auto

lemma json_escape_prefix:
  "concat (map json_escape_char a) @ CHR 0x22 # t = concat (map json_escape_char b) @ CHR 0x22 # t'
   \<Longrightarrow> a = b \<and> t = t'"
proof (induction a arbitrary: b)
  case Nil
  show ?case
  proof (cases b)
    case Nil
    with Nil.prems show ?thesis by simp
  next
    case (Cons c cs)
    with Nil.prems json_escape_char_not_quote [of c "concat (map json_escape_char cs) @ CHR 0x22 # t'" t]
    show ?thesis by simp
  qed
next
  case (Cons c cs)
  show ?case
  proof (cases b)
    case Nil
    with Cons.prems json_escape_char_not_quote [of c "concat (map json_escape_char cs) @ CHR 0x22 # t" t']
    show ?thesis by simp
  next
    case (Cons c' cs')
    with Cons.prems have "json_escape_char c @ (concat (map json_escape_char cs) @ CHR 0x22 # t)
        = json_escape_char c' @ (concat (map json_escape_char cs') @ CHR 0x22 # t')"
      by simp
    then have "c = c'" and "concat (map json_escape_char cs) @ CHR 0x22 # t
        = concat (map json_escape_char cs') @ CHR 0x22 # t'"
      using json_escape_char_prefix by blast+
    with Cons.IH [of cs'] Cons show ?thesis by simp
  qed
qed

lemma json_quote_prefix: "json_quote a @ t = json_quote b @ t' \<Longrightarrow> a = b \<and> t = t'"
  using json_escape_prefix [of a t b t'] by (simp add: json_quote_def)

lemma digit_char_numeric: "n < 10 \<Longrightarrow> digit_char n \<in> set ''-0123456789''"
proof -
  assume "n < 10"
  then have "n \<in> {0, 1, 2, 3, 4, 5, 6, 7, 8, 9}" by auto
  then show ?thesis unfolding digit_char_def by (elim insertE emptyE) simp_all
qed

lemma show_nat_numeric: "set (show_nat n) \<subseteq> set ''-0123456789'' \<and> show_nat n \<noteq> []"
proof (induction n rule: show_nat.induct)
  case (1 n)
  show ?case
  proof (cases "n < 10")
    case True
    with digit_char_numeric [of n] show ?thesis by (simp add: show_nat.simps [of n])
  next
    case False
    with "1" digit_char_numeric [of "n mod 10"] show ?thesis
      by (simp add: show_nat.simps [of n])
  qed
qed

lemma show_int_numeric: "set (show_int i) \<subseteq> set ''-0123456789'' \<and> show_int i \<noteq> []"
  using show_nat_numeric [of "nat i"] show_nat_numeric [of "nat (- i)"]
  by (simp add: show_int_def)

lemma json_text_kind:
  assumes "JSON_stringify w = Some s"
  shows "s \<noteq> [] \<and> char_kind (hd s) = json_kind w \<and> json_kind w \<noteq> 0"
proof (cases w)
  case (JNum n)
  with assms have s: "s = show_int n" by simp
  from show_int_numeric [of n] have "show_int n \<noteq> []" "hd (show_int n) \<in> set ''-0123456789''"
    by (auto simp del: set_simps intro: subsetD hd_in_set)
  then have "char_kind (hd (show_int n)) = 3"
    unfolding char_kind_def by auto
  with s JNum \<open>show_int n \<noteq> []\<close> show ?thesis by simp
next
  case (JBool b)
  with assms have "s = (if b then ''true'' else ''false'')" by simp
  with JBool show ?thesis by (cases b) (simp_all add: char_kind_def)
qed (use assms in \<open>auto simp: char_kind_def json_quote_def\<close>)

lemma json_text_not_delimited:
  assumes "JSON_stringify w = Some s"
  shows "\<not> delimited (s @ t)"
proof -
  from json_text_kind [OF assms] obtain c r where s: "s = c # r" and k: "char_kind c \<noteq> 0"
    by (cases s) auto
  from k have "c \<notin> set '',}]''" by (auto simp: char_kind_def)
  with s show ?thesis by (simp add: delimited_def)
qed

lemma json_same_kind:
  assumes "JSON_stringify v = Some s" and "JSON_stringify w = Some s'" and "s @ t = s' @ t'"
  shows "json_kind v = json_kind w"
proof -
  from json_text_kind [OF assms(1)] json_text_kind [OF assms(2)]
  obtain c r c' r' where "s = c # r" "s' = c' # r'"
    "char_kind c = json_kind v" "char_kind c' = json_kind w"
    by (cases s; cases s') auto
  with assms(3) show ?thesis by simp
qed

lemma show_int_prefix:
  assumes "show_int n @ t = show_int n' @ t'" and "delimited t" and "delimited t'"
  shows "show_int n = show_int n' \<and> t = t'"
proof -
  let ?P = "\<lambda>c. c \<in> set ''-0123456789''"
  have tw: "takeWhile ?P (show_int i @ u) = show_int i" if "delimited u" for i u
  proof -
    have "\<forall>c \<in> set (show_int i). ?P c" using show_int_numeric [of i] by blast
    then have "takeWhile ?P (show_int i @ u) = show_int i @ takeWhile ?P u"
      by (intro takeWhile_append2) blast
    moreover have "takeWhile ?P u = []"
      using that by (cases u) (auto simp: delimited_def)
    ultimately show ?thesis by simp
  qed
  from tw [OF assms(2), of n] tw [OF assms(3), of n'] assms(1)
  have "show_int n = show_int n'" by simp
  with assms(1) show ?thesis by simp
qed

lemma intercalate_Cons:
  "intercalate sep (e # es) = e @ (if es = [] then [] else sep @ intercalate sep es)"
  by (cases es) simp_all

lemma tail_nil_nil:
  "(if es0 = [] then [] else sep @ X) @ c # u = (if es0' = [] then [] else sep @ X') @ c # u'
   \<Longrightarrow> es0 = [] \<Longrightarrow> es0' = [] \<Longrightarrow> u = u'"
  by simp

lemma tail_nil_cons:
  "(if es0 = [] then [] else '','' @ X) @ c # u = (if es0' = [] then [] else '','' @ X') @ c # u'
   \<Longrightarrow> es0 = [] \<Longrightarrow> es0' \<noteq> [] \<Longrightarrow> c = CHR '',''"
  by simp

lemma tail_cons_nil:
  "(if es0 = [] then [] else '','' @ X) @ c # u = (if es0' = [] then [] else '','' @ X') @ c # u'
   \<Longrightarrow> es0 \<noteq> [] \<Longrightarrow> es0' = [] \<Longrightarrow> c = CHR '',''"
  by simp

lemma tail_cons_cons:
  "(if es0 = [] then [] else '','' @ X) @ c # u = (if es0' = [] then [] else '','' @ X') @ c # u'
   \<Longrightarrow> es0 \<noteq> [] \<Longrightarrow> es0' \<noteq> [] \<Longrightarrow> X @ c # u = X' @ c # u'"
  by simp

lemma separated_list_inj:
  assumes "\<And>e e' t t'. e \<in> set es \<Longrightarrow> R e' \<Longrightarrow> delimited t \<Longrightarrow> delimited t'
             \<Longrightarrow> e @ t = e' @ t' \<Longrightarrow> e = e' \<and> t = t'"
    and "\<forall>e' \<in> set es'. R e'"
    and "\<And>e x. e \<in> set es \<Longrightarrow> \<not> delimited (e @ x)"
    and "\<And>e x. e \<in> set es' \<Longrightarrow> \<not> delimited (e @ x)"
    and "c \<in> set ''}]''"
    and "intercalate '','' es @ c # u = intercalate '','' es' @ c # u'"
  shows "es = es' \<and> u = u'"
  using assms
proof (induction es arbitrary: es')
  case Nil
  show ?case
  proof (cases es')
    case Nil
    with Nil.prems(6) show ?thesis by simp
  next
    case (Cons e' es0')
    from Nil.prems(5) have "delimited (c # u)" by (auto simp: delimited_def)
    moreover from Nil.prems(6) Cons
    have "c # u = e' @ ((if es0' = [] then [] else '','' @ intercalate '','' es0') @ c # u')"
      by (simp add: intercalate_Cons)
    moreover have "\<not> delimited (e' @ ((if es0' = [] then [] else '','' @ intercalate '','' es0') @ c # u'))"
      using Nil.prems(4) Cons by simp
    ultimately show ?thesis by simp
  qed
next
  case (Cons e es0)
  let ?T = "(if es0 = [] then [] else '','' @ intercalate '','' es0) @ c # u"
  have dT: "delimited ?T" using Cons.prems(5) by (auto simp: delimited_def)
  show ?case
  proof (cases es')
    case Nil
    from Cons.prems(5) have "delimited (c # u')" by (auto simp: delimited_def)
    moreover from Cons.prems(6) Nil have "e @ ?T = c # u'" by (simp add: intercalate_Cons)
    moreover have "\<not> delimited (e @ ?T)" using Cons.prems(3) by simp
    ultimately show ?thesis by simp
  next
    case (Cons e' es0')
    let ?T' = "(if es0' = [] then [] else '','' @ intercalate '','' es0') @ c # u'"
    have dT': "delimited ?T'" using Cons.prems(5) by (auto simp: delimited_def)
    from Cons.prems(6) Cons have eqT: "e @ ?T = e' @ ?T'" by (simp add: intercalate_Cons)
    have Re: "R e'" using Cons.prems(2) Cons by simp
    have "e \<in> set (e # es0)" by simp
    from Cons.prems(1) [OF this Re dT dT' eqT] have ee: "e = e'" and TT: "?T = ?T'"
      by blast+
    have cc: "c \<noteq> CHR '',''" using Cons.prems(5) by auto
    show ?thesis
    proof (cases "es0 = []")
      case True
      have "es0' = [] \<and> u = u'"
      proof (cases "es0' = []")
        case True
        from tail_nil_nil [OF TT \<open>es0 = []\<close> True] True show ?thesis by blast
      next
        case False
        from tail_nil_cons [OF TT \<open>es0 = []\<close> False] cc show ?thesis by blast
      qed
      with True ee Cons show ?thesis by blast
    next
      case False
      have ne: "es0' \<noteq> []"
      proof
        assume "es0' = []"
        from tail_cons_nil [OF TT False this] cc show False by blast
      qed
      note eq = tail_cons_cons [OF TT False ne]
      have "es0 = es0' \<and> u = u'"
      proof (rule Cons.IH [OF _ _ _ _ Cons.prems(5) eq])
        fix a a' t t'
        assume "a \<in> set es0" "R a'" "delimited t" "delimited t'" "a @ t = a' @ t'"
        moreover from \<open>a \<in> set es0\<close> have "a \<in> set (e # es0)" by simp
        ultimately show "a = a' \<and> t = t'" by (intro Cons.prems(1))
      next
        show "\<forall>e' \<in> set es0'. R e'" using Cons.prems(2) Cons by simp
      next
        fix a x
        assume "a \<in> set es0"
        then have "a \<in> set (e # es0)" by simp
        then show "\<not> delimited (a @ x)" by (rule Cons.prems(3))
      next
        fix a x
        assume "a \<in> set es0'"
        with Cons have "a \<in> set es'" by simp
        then show "\<not> delimited (a @ x)" by (rule Cons.prems(4))
      qed
      with ee Cons show ?thesis by blast
    qed
  qed
qed

lemma json_members_cases:
  "m \<in> set (json_members es) \<Longrightarrow>
   \<exists>k v sv. (k, v) \<in> set es \<and> JSON_stringify v = Some sv \<and> m = json_quote k @ '':'' @ sv"
proof (induction es)
  case Nil
  then show ?case by simp
next
  case (Cons e es)
  obtain k v where e: "e = (k, v)" by (cases e)
  show ?case
  proof (cases "JSON_stringify v")
    case None
    with Cons e show ?thesis by auto
  next
    case (Some sv)
    with Cons.prems e have "m = json_quote k @ '':'' @ sv \<or> m \<in> set (json_members es)" by auto
    then show ?thesis
    proof
      assume "m = json_quote k @ '':'' @ sv"
      with Some e show ?thesis by auto
    next
      assume "m \<in> set (json_members es)"
      from Cons.IH [OF this] show ?thesis by auto
    qed
  qed
qed

lemma json_elements_cases:
  "e \<in> set (json_elements xs) \<Longrightarrow> (\<exists>x \<in> set xs. JSON_stringify x = Some e) \<or> e = ''null''"
  by (induction xs) (auto split: option.splits)

lemma json_null_prefix:
  assumes "JSON_stringify w = Some s'" and "''null'' @ t = s' @ t'"
  shows "''null'' = s' \<and> t = t'"
proof -
  have "JSON_stringify JNull = Some ''null''" by simp
  from json_same_kind [OF this assms(1) assms(2)] have "json_kind w = 1" by simp
  then have "w = JNull" by (cases w) simp_all
  with assms show ?thesis by simp
qed

lemma json_member_not_delimited: "\<not> delimited ((json_quote k @ '':'' @ sv) @ x)"
  by (simp add: json_quote_def delimited_def)

lemma json_prefix_free:
  "JSON_stringify v = Some s \<Longrightarrow> JSON_stringify w = Some s' \<Longrightarrow> s @ t = s' @ t'
   \<Longrightarrow> delimited t \<Longrightarrow> delimited t' \<Longrightarrow> s = s' \<and> t = t'"
proof (induction v arbitrary: w s s' t t')
  case JUndefined
  then show ?case by simp
next
  case JNull
  then show ?case using json_null_prefix [of w s' t t'] by simp
next
  case (JBool b)
  from json_same_kind [OF JBool(1,2,3)] obtain b' where w: "w = JBool b'" by (cases w) simp_all
  with JBool show ?case by (cases b; cases b') auto
next
  case (JNum n)
  from json_same_kind [OF JNum(1,2,3)] obtain n' where w: "w = JNum n'" by (cases w) simp_all
  with JNum show_int_prefix [of n t n' t'] show ?case by auto
next
  case (JStr a)
  from json_same_kind [OF JStr(1,2,3)] obtain a' where w: "w = JStr a'" by (cases w) simp_all
  with JStr json_quote_prefix [of a t a' t'] show ?case by auto
next
  case (JObj r es)
  from json_same_kind [OF JObj(2,3,4)] obtain r' es' where w: "w = JObj r' es'"
    by (cases w) simp_all
  let ?R = "\<lambda>m. \<exists>k sv u. JSON_stringify u = Some sv \<and> m = json_quote k @ '':'' @ sv"
  from JObj(2) have s: "s = ''{'' @ intercalate '','' (json_members es) @ ''}''" by auto
  from JObj(3) w have s': "s' = ''{'' @ intercalate '','' (json_members es') @ ''}''" by auto
  from JObj(4) s s'
  have eq: "intercalate '','' (json_members es) @ CHR ''}'' # t
          = intercalate '','' (json_members es') @ CHR ''}'' # t'"
    by simp
  have "json_members es = json_members es' \<and> t = t'"
  proof (rule separated_list_inj [where R = ?R, OF _ _ _ _ _ eq])
    fix e e' t1 t1'
    assume e: "e \<in> set (json_members es)" and R: "?R e'"
      and d: "delimited t1" "delimited t1'" and q: "e @ t1 = e' @ t1'"
    from json_members_cases [OF e] obtain k v sv
      where kv: "(k, v) \<in> set es" and sv: "JSON_stringify v = Some sv"
        and m: "e = json_quote k @ '':'' @ sv" by blast
    from R obtain k' sv' u where u: "JSON_stringify u = Some sv'"
      and m': "e' = json_quote k' @ '':'' @ sv'" by blast
    from q m m' have "json_quote k @ ('':'' @ sv @ t1) = json_quote k' @ ('':'' @ sv' @ t1')"
      by simp
    from json_quote_prefix [OF this] have kk: "k = k'" and "sv @ t1 = sv' @ t1'" by simp_all
    moreover have "v \<in> Basic_BNFs.snds (k, v)" by simp
    ultimately have "sv = sv' \<and> t1 = t1'"
      using JObj(1) [OF kv _ sv u _ d] by blast
    with kk m m' show "e = e' \<and> t1 = t1'" by simp
  next
    show "\<forall>e' \<in> set (json_members es'). ?R e'"
      using json_members_cases by blast
  next
    fix e x
    assume "e \<in> set (json_members es)"
    from json_members_cases [OF this] json_member_not_delimited
    show "\<not> delimited (e @ x)" by blast
  next
    fix e x
    assume "e \<in> set (json_members es')"
    from json_members_cases [OF this] json_member_not_delimited
    show "\<not> delimited (e @ x)" by blast
  next
    show "CHR ''}'' \<in> set ''}]''" by simp
  qed
  with s s' show ?case by simp
next
  case (JArr r xs)
  from json_same_kind [OF JArr(2,3,4)] obtain r' xs' where w: "w = JArr r' xs'"
    by (cases w) simp_all
  let ?R = "\<lambda>e. \<exists>u. JSON_stringify u = Some e"
  from JArr(2) have s: "s = ''['' @ intercalate '','' (json_elements xs) @ '']''" by auto
  from JArr(3) w have s': "s' = ''['' @ intercalate '','' (json_elements xs') @ '']''" by auto
  from JArr(4) s s'
  have eq: "intercalate '','' (json_elements xs) @ CHR '']'' # t
          = intercalate '','' (json_elements xs') @ CHR '']'' # t'"
    by simp
  have R: "?R e" if "e \<in> set (json_elements ys)" for e ys
  proof -
    have "JSON_stringify JNull = Some ''null''" by simp
    with json_elements_cases [OF that] show ?thesis by blast
  qed
  have "json_elements xs = json_elements xs' \<and> t = t'"
  proof (rule separated_list_inj [where R = ?R, OF _ _ _ _ _ eq])
    fix e e' t1 t1'
    assume e: "e \<in> set (json_elements xs)" and R: "?R e'"
      and d: "delimited t1" "delimited t1'" and q: "e @ t1 = e' @ t1'"
    from R obtain u where u: "JSON_stringify u = Some e'" by blast
    from json_elements_cases [OF e] show "e = e' \<and> t1 = t1'"
    proof
      assume "\<exists>x \<in> set xs. JSON_stringify x = Some e"
      then obtain x where "x \<in> set xs" "JSON_stringify x = Some e" by blast
      from JArr(1) [OF this u q d] show ?thesis .
    next
      assume "e = ''null''"
      with json_null_prefix [OF u, of t1 t1'] q show ?thesis by simp
    qed
  next
    show "\<forall>e' \<in> set (json_elements xs'). ?R e'" using R by blast
  next
    fix e x
    assume "e \<in> set (json_elements xs)"
    from R [OF this] json_text_not_delimited show "\<not> delimited (e @ x)" by blast
  next
    fix e x
    assume "e \<in> set (json_elements xs')"
    from R [OF this] json_text_not_delimited show "\<not> delimited (e @ x)" by blast
  next
    show "CHR '']'' \<in> set ''}]''" by simp
  qed
  with s s' show ?case by simp
next
  case (JFun r)
  then show ?case by simp
qed

lemma JSON_stringify_content:
  "JSON_stringify (content v) = JSON_stringify v"
  "json_elements (content_elements xs) = json_elements xs"
  "json_members (content_members es) = json_members es"
  by (induction v and xs and es rule: content_content_elements_content_members.induct)
    (simp_all split: option.splits)

lemma json_members_Nil: "json_members es = [] \<Longrightarrow> json_keys es = []"
proof (induction es)
  case Nil
  then show ?case by simp
next
  case (Cons e es)
  obtain k v where "e = (k, v)" by (cases e)
  with Cons show ?case by (cases "JSON_stringify v") simp_all
qed

lemma json_members_Cons:
  "json_members es = m # ms \<Longrightarrow>
   \<exists>k sv rest. m = json_quote k @ '':'' @ sv \<and> json_keys es = k # json_keys rest
     \<and> json_members rest = ms"
proof (induction es)
  case Nil
  then show ?case by simp
next
  case (Cons e es)
  obtain k v where e: "e = (k, v)" by (cases e)
  show ?case
  proof (cases "JSON_stringify v")
    case None
    with Cons e show ?thesis by simp
  next
    case (Some sv)
    with Cons.prems e have "m = json_quote k @ '':'' @ sv" "json_members es = ms"
      "json_keys (e # es) = k # json_keys es" by simp_all
    then show ?thesis by blast
  qed
qed

lemma json_members_keys:
  "json_members es = json_members es' \<Longrightarrow> json_keys es = json_keys es'"
proof (induction es arbitrary: es')
  case Nil
  then show ?case using json_members_Nil [of es'] by simp
next
  case (Cons e es)
  obtain k v where e: "e = (k, v)" by (cases e)
  show ?case
  proof (cases "JSON_stringify v")
    case None
    with Cons e show ?thesis by simp
  next
    case (Some sv)
    with Cons.prems e
    have m: "json_members es' = (json_quote k @ '':'' @ sv) # json_members es" by simp
    from json_members_Cons [OF m] obtain k' sv' rest
      where q: "json_quote k @ '':'' @ sv = json_quote k' @ '':'' @ sv'"
        and ks: "json_keys es' = k' # json_keys rest"
        and r: "json_members rest = json_members es" by blast
    from json_quote_prefix [OF q] have "k = k'" by simp
    moreover from Cons.IH [of rest] r have "json_keys es = json_keys rest" by simp
    ultimately show ?thesis using ks e Some by simp
  qed
qed

lemma JSON_stringify_object_keys:
  assumes "JSON_stringify (JObj r es) = JSON_stringify (JObj r' es')"
  shows "json_keys es = json_keys es'"
proof -
  let ?s = "''{'' @ intercalate '','' (json_members es) @ ''}''"
  let ?s' = "''{'' @ intercalate '','' (json_members es') @ ''}''"
  from assms have eq: "?s = ?s'" by simp
  then have "intercalate '','' (json_members es) @ CHR ''}'' # []
      = intercalate '','' (json_members es') @ CHR ''}'' # []" by simp
  have "json_members es = json_members es' \<and> ([]::string) = []"
  proof (rule separated_list_inj
      [where R = "\<lambda>m. \<exists>k sv u. JSON_stringify u = Some sv \<and> m = json_quote k @ '':'' @ sv"
         and c = "CHR ''}''"])
    fix e e' t1 t1'
    assume e: "e \<in> set (json_members es)"
      and R: "\<exists>k sv u. JSON_stringify u = Some sv \<and> e' = json_quote k @ '':'' @ sv"
      and d: "delimited t1" "delimited t1'" and q: "e @ t1 = e' @ t1'"
    from json_members_cases [OF e] obtain k v sv
      where sv: "JSON_stringify v = Some sv" and m: "e = json_quote k @ '':'' @ sv" by blast
    from R obtain k' sv' u where u: "JSON_stringify u = Some sv'"
      and m': "e' = json_quote k' @ '':'' @ sv'" by blast
    from q m m' have "json_quote k @ ('':'' @ sv @ t1) = json_quote k' @ ('':'' @ sv' @ t1')"
      by simp
    from json_quote_prefix [OF this] have kk: "k = k'" and "sv @ t1 = sv' @ t1'" by simp_all
    from json_prefix_free [OF sv u this(2) d] kk m m' show "e = e' \<and> t1 = t1'" by simp
  next
    show "\<forall>e' \<in> set (json_members es').
        \<exists>k sv u. JSON_stringify u = Some sv \<and> e' = json_quote k @ '':'' @ sv"
      using json_members_cases by blast
  next
    fix e x
    assume "e \<in> set (json_members es)"
    from json_members_cases [OF this] json_member_not_delimited
    show "\<not> delimited (e @ x)" by blast
  next
    fix e x
    assume "e \<in> set (json_members es')"
    from json_members_cases [OF this] json_member_not_delimited
    show "\<not> delimited (e @ x)" by blast
  next
    show "CHR ''}'' \<in> set ''}]''" by simp
  next
    from eq show "intercalate '','' (json_members es) @ CHR ''}'' # []
      = intercalate '','' (json_members es') @ CHR ''}'' # []" by simp
  qed
  then show ?thesis using json_members_keys by blast
qed

section \<open>The claims\<close>

text \<open>
  C1. The effect of the JavaScript copy of the module does not look at the queue: on
  every input it does what the effect of the TypeScript module does when the queue is
  empty. A binding of \<open>val\<close> calls \<open>setValue('ferret')\<close> at \<open>?val=cat\<close>: it holds
  \<open>'ferret'\<close>, the write is pending in the queue and nothing is committed. The location
  then changes to \<open>?val=dog\<close>. The effect of the JavaScript copy replaces the local state
  by \<open>'dog'\<close> while the write is pending; the effect of the TypeScript module makes no
  update.
\<close>

theorem js_copy_effect_has_no_gate:
  "locSearch_effect_js c call def locSearch b = locSearch_effect c call def locSearch [] b
   \<and> mount qs scenario_call animal ''?val=cat'' = Some settled_cat
   \<and> setValue scenario_call animal 0 (JStr ''ferret'') (settled_cat, one_scope ''?val=cat'')
       = (Some (settled (JStr ''ferret'') ''?val=cat''),
          storeInURL 0 ''val'' (JStr ''ferret'') (one_scope ''?val=cat''))
   \<and> commitQueue (storeInURL 0 ''val'' (JStr ''ferret'') (one_scope ''?val=cat''))
       = [(''val'', JStr ''ferret'')]
   \<and> committed (scopes (storeInURL 0 ''val'' (JStr ''ferret'') (one_scope ''?val=cat'')) ! 0) = []
   \<and> locSearch_effect_js qs scenario_call animal ''?val=dog'' (settled (JStr ''ferret'') ''?val=cat'')
       = (Some (JStr ''dog''), Some (settled (JStr ''dog'') ''?val=cat''))
   \<and> after_render_js qs scenario_call 0 animal ''?val=dog'' (settled (JStr ''ferret'') ''?val=cat'')
       = Some (settled (JStr ''dog'') ''?val=dog'')
   \<and> locSearch_effect qs scenario_call animal ''?val=dog'' [(''val'', JStr ''ferret'')]
         (settled (JStr ''ferret'') ''?val=cat'')
       = (None, Some (settled (JStr ''ferret'') ''?val=cat''))
   \<and> after_render qs scenario_call 0 animal ''?val=dog'' [(''val'', JStr ''ferret'')]
         (settled (JStr ''ferret'') ''?val=cat'')
       = Some (settled (JStr ''ferret'') ''?val=dog'')"
proof -
  have g: "locSearch_effect_js c call def locSearch b = locSearch_effect c call def locSearch [] b"
    by (rule js_effect_no_gate)
  have s: "mount qs scenario_call animal ''?val=cat'' = Some settled_cat
     \<and> setValue scenario_call animal 0 (JStr ''ferret'') (settled_cat, one_scope ''?val=cat'')
       = (Some (settled (JStr ''ferret'') ''?val=cat''),
          storeInURL 0 ''val'' (JStr ''ferret'') (one_scope ''?val=cat''))
     \<and> commitQueue (storeInURL 0 ''val'' (JStr ''ferret'') (one_scope ''?val=cat''))
       = [(''val'', JStr ''ferret'')]
     \<and> committed (scopes (storeInURL 0 ''val'' (JStr ''ferret'') (one_scope ''?val=cat'')) ! 0) = []
     \<and> locSearch_effect_js qs scenario_call animal ''?val=dog'' (settled (JStr ''ferret'') ''?val=cat'')
       = (Some (JStr ''dog''), Some (settled (JStr ''dog'') ''?val=cat''))
     \<and> after_render_js qs scenario_call 0 animal ''?val=dog'' (settled (JStr ''ferret'') ''?val=cat'')
       = Some (settled (JStr ''dog'') ''?val=dog'')
     \<and> locSearch_effect qs scenario_call animal ''?val=dog'' [(''val'', JStr ''ferret'')]
         (settled (JStr ''ferret'') ''?val=cat'')
       = (None, Some (settled (JStr ''ferret'') ''?val=cat''))
     \<and> after_render qs scenario_call 0 animal ''?val=dog'' [(''val'', JStr ''ferret'')]
         (settled (JStr ''ferret'') ''?val=cat'')
       = Some (settled (JStr ''ferret'') ''?val=dog'')"
    by code_simp
  from g s show ?thesis by blast
qed

text \<open>
  C2. When the timer of a scope fires (it is due, and nothing was enqueued since), the
  committer decodes the current location of the scope, lays the whole queue over it (a
  pending entry overrides the decoded one; a key whose pending entry is \<open>null\<close> is not
  written: the output is that of the merged mapping without the key), encodes the merged
  mapping, calls the commit function of the scope once with the result, and empties the
  queue.
\<close>

theorem commit_on_timer_expiry:
  assumes "sid < length (scopes m)"
    and "timer (scopes m ! sid) = Some 0"
    and "distinct (map fst (commitQueue m))"
  shows "(let sc = scopes m ! sid;
              decoded = spread [] (parse c (location sc));
              merged = qsObject c (location sc) (commitQueue m);
              m' = timer_fires c sid m
          in (\<forall>k. map_of merged k
                 = (case map_of (commitQueue m) k of Some v \<Rightarrow> Some v | None \<Rightarrow> map_of decoded k))
           \<and> (\<forall>k. map_of (commitQueue m) k = Some JNull \<longrightarrow>
                  k \<notin> fst ` set (skipNulls merged)
                \<and> qs_stringify c merged = qs_stringify c (obj_delete k merged))
           \<and> committed (scopes m' ! sid) = committed sc @ [qs_stringify c merged]
           \<and> commitQueue m' = []
           \<and> timer (scopes m' ! sid) = None
           \<and> location (scopes m' ! sid) = location sc
           \<and> (\<forall>j. j \<noteq> sid \<longrightarrow> scopes m' ! j = scopes m ! j))"
proof -
  let ?sc = "scopes m ! sid"
  let ?merged = "qsObject c (location ?sc) (commitQueue m)"
  have overlay: "map_of ?merged k
      = (case map_of (commitQueue m) k of Some v \<Rightarrow> Some v
         | None \<Rightarrow> map_of (spread [] (parse c (location ?sc))) k)" for k
    using assms(3) by (simp add: map_of_qsObject map_add_def)
  have null: "k \<notin> fst ` set (skipNulls ?merged)
       \<and> qs_stringify c ?merged = qs_stringify c (obj_delete k ?merged)"
    if "map_of (commitQueue m) k = Some JNull" for k
  proof -
    from that overlay have n: "map_of ?merged k = Some JNull" by simp
    then have "map_of (skipNulls ?merged) k = None"
      by (simp add: map_of_skipNulls distinct_qsObject)
    then have "k \<notin> fst ` set (skipNulls ?merged)" by (simp add: map_of_eq_None_iff)
    moreover have "skipNulls (obj_delete k ?merged) = skipNulls ?merged"
      using n by (simp add: skipNulls_obj_delete distinct_qsObject)
    ultimately show ?thesis by (simp add: qs_stringify_def)
  qed
  show ?thesis
    using assms(1,2) overlay null by (simp add: Let_def timer_fires_due)
qed

theorem commit_on_timer_expiry_witness:
  "0 < length (scopes (due_null ''?val=cat&type=3''))
   \<and> timer (scopes (due_null ''?val=cat&type=3'') ! 0) = Some 0
   \<and> distinct (map fst (commitQueue (due_null ''?val=cat&type=3'')))
   \<and> map_of (commitQueue (due_null ''?val=cat&type=3'')) ''val'' = Some JNull
   \<and> committed (scopes (timer_fires qs 0 (due_null ''?val=cat&type=3'')) ! 0) = [''type=3'']
   \<and> commitQueue (timer_fires qs 0 (due_null ''?val=cat&type=3'')) = []"
proof -
  have h1: "0 < length (scopes (due_null ''?val=cat&type=3''))" by code_simp
  have h2: "timer (scopes (due_null ''?val=cat&type=3'') ! 0) = Some 0" by code_simp
  have h3: "distinct (map fst (commitQueue (due_null ''?val=cat&type=3'')))" by code_simp
  have n: "map_of (commitQueue (due_null ''?val=cat&type=3'')) ''val'' = Some JNull"
    by code_simp
  have s: "committed (scopes (timer_fires qs 0 (due_null ''?val=cat&type=3'')) ! 0) = [''type=3'']"
    by code_simp
  from commit_on_timer_expiry [OF h1 h2 h3, of qs]
  have q: "commitQueue (timer_fires qs 0 (due_null ''?val=cat&type=3'')) = []"
    unfolding Let_def by blast
  from h1 h2 h3 n s q show ?thesis by blast
qed

text \<open>
  C3. If the dehydrated form of the validated value (the value given to \<open>setValue\<close>, or
  the default when the validator rejects it) is \<open>===\<close> the dehydrated default, then the
  key is enqueued with \<open>null\<close> and is absent from the next committed location, whatever
  the location held before: the commit is the encoding of the merged mapping without the
  key.
\<close>

theorem default_not_in_committed_location:
  assumes "sid < length (scopes m)"
    and "distinct (map fst (commitQueue m))"
    and "strict_eq
           (dehydrator_of def (if truthy (validator_fn def value) then value else default_val def))
           (dehydrator_of def (default_val def))"
  shows "(let m1 = snd (setValue call def sid value (b, m));
              merged = qsObject c (location (scopes m ! sid)) (commitQueue m1);
              m2 = timer_fires c sid (elapse COMMIT_DELAY m1)
          in map_of (commitQueue m1) (key def) = Some JNull
           \<and> committed (scopes m2 ! sid) = committed (scopes m ! sid) @ [qs_stringify c merged]
           \<and> key def \<notin> fst ` set (skipNulls merged)
           \<and> qs_stringify c merged = qs_stringify c (obj_delete (key def) merged))"
proof -
  let ?m1 = "snd (setValue call def sid value (b, m))"
  let ?merged = "qsObject c (location (scopes m ! sid)) (commitQueue ?m1)"
  let ?m1' = "elapse COMMIT_DELAY ?m1"
  have m1: "?m1 = storeInURL sid (key def) JNull m"
    using assms(3) by (simp add: setValue_def Let_def)
  have q: "map_of (commitQueue ?m1) (key def) = Some JNull"
    by (simp add: m1 commitQueue_storeInURL map_of_obj_set)
  have d: "distinct (map fst (commitQueue ?m1))"
    by (simp add: m1 distinct_commitQueue_storeInURL)
  have l: "sid < length (scopes ?m1')" using assms(1) by (simp add: m1)
  have t: "timer (scopes ?m1' ! sid) = Some 0"
    using assms(1) by (simp add: m1 timer_elapse_storeInURL)
  have loc: "location (scopes ?m1' ! sid) = location (scopes m ! sid)"
    using assms(1) by (simp add: m1 location_elapse location_storeInURL)
  have com: "committed (scopes ?m1' ! sid) = committed (scopes m ! sid)"
    using assms(1) by (simp add: m1 committed_elapse committed_storeInURL)
  have c2: "committed (scopes (timer_fires c sid ?m1') ! sid)
      = committed (scopes m ! sid) @ [qs_stringify c ?merged]"
    using l by (simp add: timer_fires_due [OF l t] loc com)
  have n: "map_of ?merged (key def) = Some JNull"
    using d q by (simp add: map_of_qsObject)
  then have "map_of (skipNulls ?merged) (key def) = None"
    by (simp add: map_of_skipNulls distinct_qsObject)
  then have a: "key def \<notin> fst ` set (skipNulls ?merged)" by (simp add: map_of_eq_None_iff)
  have "skipNulls (obj_delete (key def) ?merged) = skipNulls ?merged"
    using n by (simp add: skipNulls_obj_delete distinct_qsObject)
  then have s: "qs_stringify c ?merged = qs_stringify c (obj_delete (key def) ?merged)"
    by (simp add: qs_stringify_def)
  from q c2 a s show ?thesis unfolding Let_def by blast
qed

theorem default_not_in_committed_location_witness:
  "0 < length (scopes (one_scope ''?val=cat|3&type=3''))
   \<and> distinct (map fst (commitQueue (one_scope ''?val=cat|3&type=3'')))
   \<and> mount qs scenario_call type_count ''?val=cat|3&type=3''
       = Some (settled (JStr ''cat|3'') ''?val=cat|3&type=3'')
   \<and> \<not> strict_eq (JObj 2 [(''count'', JNum 1), (''type'', JStr ''cat''),
                          (''other'', JStr ''default prop never on URL'')]) (default_val type_count)
   \<and> dehydrator_of type_count (JObj 2 [(''count'', JNum 1), (''type'', JStr ''cat''),
                          (''other'', JStr ''default prop never on URL'')]) = JStr ''cat|1''
   \<and> dehydrator_of type_count (default_val type_count) = JStr ''cat|1''
   \<and> commitQueue (snd (setValue scenario_call type_count 0
         (JObj 2 [(''count'', JNum 1), (''type'', JStr ''cat''),
                  (''other'', JStr ''default prop never on URL'')])
         (settled (JStr ''cat|3'') ''?val=cat|3&type=3'', one_scope ''?val=cat|3&type=3'')))
       = [(''val'', JNull)]
   \<and> committed (scopes (timer_fires qs 0 (elapse COMMIT_DELAY
         (snd (setValue scenario_call type_count 0
                (JObj 2 [(''count'', JNum 1), (''type'', JStr ''cat''),
                         (''other'', JStr ''default prop never on URL'')])
                (settled (JStr ''cat|3'') ''?val=cat|3&type=3'',
                 one_scope ''?val=cat|3&type=3''))))) ! 0) = [''type=3'']
   \<and> committed (scopes (timer_fires qs 0 (elapse COMMIT_DELAY
         (snd (setValue scenario_call type_count 0
                (JObj 2 [(''count'', JNum 1), (''type'', JStr ''cat''),
                         (''other'', JStr ''default prop never on URL'')])
                (settled complexDefault '''', one_scope ''''))))) ! 0) = ['''']
   \<and> committed (scopes (timer_fires qs 0 (elapse COMMIT_DELAY
         (snd (setValue scenario_call animal_ferret 0 (JStr ''ferret'')
                (settled (JStr ''cat'') ''?val=cat&type=3'', one_scope ''?val=cat&type=3''))))) ! 0)
       = [''type=3'']
   \<and> committed (scopes (timer_fires qs 0 (elapse COMMIT_DELAY
         (snd (setValue scenario_call never_valid 0 (JStr ''dog'')
                (settled (JStr ''ferret'') ''?val=cat&type=3'', one_scope ''?val=cat&type=3''))))) ! 0)
       = [''type=3'']"
proof -
  let ?v = "JObj 2 [(''count'', JNum 1), (''type'', JStr ''cat''),
                    (''other'', JStr ''default prop never on URL'')]"
  let ?m = "one_scope ''?val=cat|3&type=3''"
  let ?b = "settled (JStr ''cat|3'') ''?val=cat|3&type=3''"
  have h1: "0 < length (scopes ?m)" by code_simp
  have h2: "distinct (map fst (commitQueue ?m))" by code_simp
  have h3: "strict_eq
      (dehydrator_of type_count (if truthy (validator_fn type_count ?v) then ?v
                                 else default_val type_count))
      (dehydrator_of type_count (default_val type_count))"
    by code_simp
  have mo: "mount qs scenario_call type_count ''?val=cat|3&type=3'' = Some ?b" by code_simp
  have n: "\<not> strict_eq ?v (default_val type_count)" by code_simp
  have d1: "dehydrator_of type_count ?v = JStr ''cat|1''" by code_simp
  have d2: "dehydrator_of type_count (default_val type_count) = JStr ''cat|1''" by code_simp
  have q: "commitQueue (snd (setValue scenario_call type_count 0 ?v (?b, ?m)))
      = [(''val'', JNull)]"
    by code_simp
  have loc: "location (scopes ?m ! 0) = ''?val=cat|3&type=3''" by code_simp
  have c0: "committed (scopes ?m ! 0) = []" by code_simp
  have s: "qs_stringify qs (qsObject qs ''?val=cat|3&type=3'' [(''val'', JNull)]) = ''type=3''"
    by code_simp
  from default_not_in_committed_location [OF h1 h2 h3, of scenario_call ?b qs]
  have "committed (scopes (timer_fires qs 0 (elapse COMMIT_DELAY
         (snd (setValue scenario_call type_count 0 ?v (?b, ?m))))) ! 0)
      = committed (scopes ?m ! 0)
        @ [qs_stringify qs (qsObject qs (location (scopes ?m ! 0))
             (commitQueue (snd (setValue scenario_call type_count 0 ?v (?b, ?m)))))]"
    unfolding Let_def by blast
  then have c: "committed (scopes (timer_fires qs 0 (elapse COMMIT_DELAY
         (snd (setValue scenario_call type_count 0 ?v (?b, ?m))))) ! 0) = [''type=3'']"
    unfolding q loc c0 s by simp
  have e: "committed (scopes (timer_fires qs 0 (elapse COMMIT_DELAY
         (snd (setValue scenario_call type_count 0 ?v
                (settled complexDefault '''', one_scope ''''))))) ! 0) = ['''']"
    by code_simp
  have f: "committed (scopes (timer_fires qs 0 (elapse COMMIT_DELAY
         (snd (setValue scenario_call animal_ferret 0 (JStr ''ferret'')
                (settled (JStr ''cat'') ''?val=cat&type=3'', one_scope ''?val=cat&type=3''))))) ! 0)
       = [''type=3'']"
    by code_simp
  have g: "committed (scopes (timer_fires qs 0 (elapse COMMIT_DELAY
         (snd (setValue scenario_call never_valid 0 (JStr ''dog'')
                (settled (JStr ''ferret'') ''?val=cat&type=3'', one_scope ''?val=cat&type=3''))))) ! 0)
       = [''type=3'']"
    by code_simp
  from h1 h2 mo n d1 d2 q c e f g show ?thesis by blast
qed

theorem default_not_in_committed_location_counterexample:
  "mount qs scenario_call sort_option '''' = Some (settled (default_val sort_option) '''')
   \<and> isEqualObj (JObj 2 [(''a'', JNum 1)]) (default_val sort_option)
   \<and> truthy (validator_fn sort_option (JObj 2 [(''a'', JNum 1)]))
   \<and> commitQueue (snd (setValue scenario_call sort_option 0 (JObj 2 [(''a'', JNum 1)])
         (settled (default_val sort_option) '''', one_scope ''''))) = [(''val'', JObj 2 [(''a'', JNum 1)])]
   \<and> committed (scopes (timer_fires qs 0 (elapse COMMIT_DELAY
         (snd (setValue scenario_call sort_option 0 (JObj 2 [(''a'', JNum 1)])
                (settled (default_val sort_option) '''', one_scope ''''))))) ! 0) = [''val%5Ba%5D=1'']"
  by code_simp

text \<open>
  C4. The read of a key that names a member of \<open>Object.prototype\<close>: with the empty
  location the key is absent, yet the raw value that is hydrated is the inherited function
  and not \<open>undefined\<close>, and the read gives that function and not the default.
\<close>

theorem inherited_key_is_read:
  "parse qs '''' = []
   \<and> getValueFromURL qs inherited_key '''' = JFun 6
   \<and> getValueFromURL qs inherited_key '''' \<noteq> default_val inherited_key
   \<and> getValueFromURL qs inherited_key ''?toString=cat'' = JFun 6"
  by code_simp




text \<open>
  C6. \<open>storeInURL\<close> merges \<open>{[k]: v}\<close> into the shared queue: the key takes the value and
  the entries of the other keys are unchanged. Two writes to one key in one quiet window
  (the second less than \<open>COMMIT_DELAY\<close> after the first): nothing is committed in
  between, the queue holds the second value, and when the timer fires there is exactly one
  commit, of the mapping in which the key has the second value.
\<close>

theorem storeInURL_last_write_wins:
  assumes "sid < length (scopes m)"
    and "distinct (map fst (commitQueue m))"
    and "dt < COMMIT_DELAY"
  shows "(let m1 = elapse dt (storeInURL sid k v1 m);
              m2 = elapse COMMIT_DELAY (storeInURL sid k v2 m1);
              merged = qsObject c (location (scopes m ! sid)) (commitQueue m2);
              m3 = timer_fires c sid m2
          in map_of (commitQueue (storeInURL sid k v1 m)) = (map_of (commitQueue m))(k \<mapsto> v1)
           \<and> timer_fires c sid m1 = m1
           \<and> map_of (commitQueue m2) = (map_of (commitQueue m))(k \<mapsto> v2)
           \<and> committed (scopes m2 ! sid) = committed (scopes m ! sid)
           \<and> committed (scopes m3 ! sid) = committed (scopes m ! sid) @ [qs_stringify c merged]
           \<and> map_of merged k = Some v2
           \<and> map_of (skipNulls merged) k
               = (if v2 = JNull \<or> v2 = JUndefined then None else Some v2)
           \<and> commitQueue m3 = [])"
proof -
  let ?m1 = "elapse dt (storeInURL sid k v1 m)"
  let ?m2 = "elapse COMMIT_DELAY (storeInURL sid k v2 ?m1)"
  let ?merged = "qsObject c (location (scopes m ! sid)) (commitQueue ?m2)"
  have l1: "sid < length (scopes ?m1)" using assms(1) by simp
  have l2: "sid < length (scopes ?m2)" using assms(1) by simp
  have q1: "map_of (commitQueue (storeInURL sid k v1 m)) = (map_of (commitQueue m))(k \<mapsto> v1)"
    using assms(2) by (rule map_of_commitQueue_storeInURL)
  have d1: "distinct (map fst (commitQueue ?m1))"
    by (simp add: distinct_commitQueue_storeInURL)
  have q2: "map_of (commitQueue ?m2) = (map_of (commitQueue m))(k \<mapsto> v2)"
    using map_of_commitQueue_storeInURL [OF d1, of sid k v2] q1 by simp
  have d2: "distinct (map fst (commitQueue ?m2))"
    by (simp add: distinct_commitQueue_storeInURL)
  have t1: "timer (scopes ?m1 ! sid) \<noteq> Some 0"
    using assms(1,3) by (simp add: timer_elapse_storeInURL)
  have t2: "timer (scopes ?m2 ! sid) = Some 0"
    using l1 by (simp add: timer_elapse_storeInURL)
  have c2: "committed (scopes ?m2 ! sid) = committed (scopes m ! sid)"
    using assms(1) by (simp add: committed_elapse committed_storeInURL)
  have loc: "location (scopes ?m2 ! sid) = location (scopes m ! sid)"
    using assms(1) by (simp add: location_elapse location_storeInURL)
  have mk: "map_of ?merged k = Some v2"
    using d2 q2 by (simp add: map_of_qsObject)
  have sk: "map_of (skipNulls ?merged) k
      = (if v2 = JNull \<or> v2 = JUndefined then None else Some v2)"
    using mk by (simp add: map_of_skipNulls distinct_qsObject)
  have c3: "committed (scopes (timer_fires c sid ?m2) ! sid)
              = committed (scopes m ! sid) @ [qs_stringify c ?merged]"
    using l2 t2 c2 loc by (simp add: timer_fires_due)
  have q3: "commitQueue (timer_fires c sid ?m2) = []"
    using l2 t2 by (simp add: timer_fires_due)
  show ?thesis
    unfolding Let_def
    using q1 timer_fires_not_due [OF t1] q2 c2 c3 mk sk q3 by blast
qed

theorem storeInURL_last_write_wins_witness:
  "0 < length (scopes (one_scope ''?val=cat''))
   \<and> distinct (map fst (commitQueue (one_scope ''?val=cat'')))
   \<and> (30::nat) < COMMIT_DELAY
   \<and> committed (scopes (timer_fires qs 0 (elapse COMMIT_DELAY
         (storeInURL 0 ''val'' (JStr ''dog'')
           (elapse 30 (storeInURL 0 ''val'' (JStr ''ferret'') (one_scope ''?val=cat'')))))) ! 0)
       = [''val=dog'']
   \<and> commitQueue (timer_fires qs 0 (elapse COMMIT_DELAY
         (storeInURL 0 ''val'' (JStr ''dog'')
           (elapse 30 (storeInURL 0 ''val'' (JStr ''ferret'') (one_scope ''?val=cat''))))))
       = []"
proof -
  have h1: "0 < length (scopes (one_scope ''?val=cat''))" by code_simp
  have h2: "distinct (map fst (commitQueue (one_scope ''?val=cat'')))" by code_simp
  have h3: "(30::nat) < COMMIT_DELAY" by code_simp
  have s: "committed (scopes (timer_fires qs 0 (elapse COMMIT_DELAY
         (storeInURL 0 ''val'' (JStr ''dog'')
           (elapse 30 (storeInURL 0 ''val'' (JStr ''ferret'') (one_scope ''?val=cat'')))))) ! 0)
       = [''val=dog'']"
    by code_simp
  from storeInURL_last_write_wins [OF h1 h2 h3, of "''val''" "JStr ''ferret''" "JStr ''dog''" qs]
  have q: "commitQueue (timer_fires qs 0 (elapse COMMIT_DELAY
         (storeInURL 0 ''val'' (JStr ''dog'')
           (elapse 30 (storeInURL 0 ''val'' (JStr ''ferret'') (one_scope ''?val=cat''))))))
       = []"
    unfolding Let_def by blast
  from h1 h2 h3 s q show ?thesis by blast
qed

text \<open>
  C7. The keys of the mapping that is committed are in the key order of objects: the keys
  that are array indices first, in strictly ascending numeric order, whether they come
  from the location or from the queue, then the other keys. The keys of the decoded
  location keep their relative order, whether or not the queue overrides their values.
  Among the keys that are no array indices, those of the decoded location come first and
  those that are only in the queue come after them, in the order of the queue; when no
  key that is only in the queue is an array index, the keys are those of the decoded
  location followed by those only in the queue. The keys that are written (those whose
  value is neither \<open>null\<close> nor \<open>undefined\<close>) are written in that order. With the location
  \<open>?val=cat&type=3&color=teal\<close> and \<open>setValue('ferret')\<close> on the key \<open>val\<close> the commit is
  \<open>val=ferret&type=3&color=teal\<close>.
\<close>

theorem commit_key_order:
  "(let decoded = spread [] (parse c loc); merged = qsObject c loc queue
    in filter (\<lambda>k. k \<in> set (Object_keys decoded)) (Object_keys merged) = Object_keys decoded
     \<and> set (Object_keys merged) = set (Object_keys decoded) \<union> set (Object_keys queue)
     \<and> distinct (Object_keys merged)
     \<and> key_order (Object_keys merged)
     \<and> (distinct (Object_keys queue) \<longrightarrow>
          other_keys (Object_keys merged)
            = other_keys (Object_keys decoded)
              @ filter (\<lambda>k. k \<notin> set (Object_keys decoded)) (other_keys (Object_keys queue)))
     \<and> (distinct (Object_keys queue)
          \<and> (\<forall>k \<in> set (Object_keys queue).
                 k \<notin> set (Object_keys decoded) \<longrightarrow> array_index k = None)
        \<longrightarrow> Object_keys merged
              = Object_keys decoded
                @ filter (\<lambda>k. k \<notin> set (Object_keys decoded)) (Object_keys queue))
     \<and> Object_keys (skipNulls merged)
         = filter (\<lambda>k. k \<in> set (Object_keys (skipNulls merged))) (Object_keys merged))
   \<and> committed (scopes (timer_fires qs 0 (elapse COMMIT_DELAY
         (snd (setValue call animal 0 (JStr ''ferret'')
                (settled (JStr ''cat'') ''?val=cat&type=3&color=teal'',
                 one_scope ''?val=cat&type=3&color=teal''))))) ! 0)
       = [''val=ferret&type=3&color=teal'']"
proof -
  let ?d = "spread [] (parse c loc)"
  let ?m = "qsObject c loc queue"
  have a: "filter (\<lambda>k. k \<in> set (Object_keys ?d)) (Object_keys ?m) = Object_keys ?d"
    using keys_spread_filter [of ?d queue]
    by (simp add: Object_keys_def qsObject_def)
  have u: "set (Object_keys ?m) = set (Object_keys ?d) \<union> set (Object_keys queue)"
    using fst_set_spread [of ?d queue] by (simp add: Object_keys_def qsObject_def)
  have di: "distinct (Object_keys ?m)"
    by (simp add: Object_keys_def distinct_qsObject)
  have "key_order (map fst ?d)" by (rule key_order_spread) simp
  then have ko: "key_order (Object_keys ?m)"
    unfolding Object_keys_def qsObject_def by (rule key_order_spread)
  have o: "other_keys (Object_keys ?m)
       = other_keys (Object_keys ?d)
         @ filter (\<lambda>k. k \<notin> set (Object_keys ?d)) (other_keys (Object_keys queue))"
    if "distinct (Object_keys queue)"
    using other_keys_spread [of queue ?d] that
    by (simp add: Object_keys_def qsObject_def)
  have b: "Object_keys ?m
       = Object_keys ?d @ filter (\<lambda>k. k \<notin> set (Object_keys ?d)) (Object_keys queue)"
    if "distinct (Object_keys queue)"
      and "\<forall>k \<in> set (Object_keys queue).
             k \<notin> set (Object_keys ?d) \<longrightarrow> array_index k = None"
    using keys_spread_append [of queue ?d] that
    by (simp add: Object_keys_def qsObject_def)
  have sk: "Object_keys (skipNulls ?m)
       = filter (\<lambda>k. k \<in> set (Object_keys (skipNulls ?m))) (Object_keys ?m)"
    by (rule keys_skipNulls) (rule distinct_qsObject)
  have q: "snd (setValue call animal 0 (JStr ''ferret'')
                (settled (JStr ''cat'') ''?val=cat&type=3&color=teal'',
                 one_scope ''?val=cat&type=3&color=teal''))
         = storeInURL 0 ''val'' (JStr ''ferret'') (one_scope ''?val=cat&type=3&color=teal'')"
    by (simp add: setValue_def Let_def animal_def dehydrator_of_def identityFn_def
        validator_fn_def)
  have s: "committed (scopes (timer_fires qs 0 (elapse COMMIT_DELAY
         (snd (setValue call animal 0 (JStr ''ferret'')
                (settled (JStr ''cat'') ''?val=cat&type=3&color=teal'',
                 one_scope ''?val=cat&type=3&color=teal''))))) ! 0)
       = [''val=ferret&type=3&color=teal'']"
    unfolding q by code_simp
  from a u di ko o b sk s show ?thesis unfolding Let_def by blast
qed

theorem commit_key_order_witness:
  "distinct (Object_keys [(''20'', JStr ''x''), (''page'', JStr ''2''), (''val'', JStr ''ferret''),
                          (''5'', JStr ''y'')])
   \<and> Object_keys (spread [] (parse qs ''?val=cat&10=a&type=3'')) = [''10'', ''val'', ''type'']
   \<and> other_keys (Object_keys (qsObject qs ''?val=cat&10=a&type=3''
         [(''20'', JStr ''x''), (''page'', JStr ''2''), (''val'', JStr ''ferret''),
          (''5'', JStr ''y'')])) = [''val'', ''type'', ''page'']
   \<and> key_order (Object_keys (qsObject qs ''?val=cat&10=a&type=3''
         [(''20'', JStr ''x''), (''page'', JStr ''2''), (''val'', JStr ''ferret''),
          (''5'', JStr ''y'')]))
   \<and> Object_keys (qsObject qs ''?val=cat&10=a&type=3''
         [(''20'', JStr ''x''), (''page'', JStr ''2''), (''val'', JStr ''ferret''),
          (''5'', JStr ''y'')]) = [''5'', ''10'', ''20'', ''val'', ''type'', ''page'']
   \<and> qs_stringify qs (qsObject qs ''?val=cat&10=a&type=3''
         [(''20'', JStr ''x''), (''page'', JStr ''2''), (''val'', JStr ''ferret''),
          (''5'', JStr ''y'')]) = ''5=y&10=a&20=x&val=ferret&type=3&page=2''
   \<and> \<not> key_order [''5'', ''20'', ''10'', ''val'', ''type'', ''page'']
   \<and> array_index ''page'' = None
   \<and> Object_keys (qsObject qs ''?val=cat&type=3'' [(''page'', JStr ''2''), (''val'', JStr ''ferret'')])
       = [''val'', ''type'', ''page'']"
proof -
  let ?q = "[(''20'', JStr ''x''), (''page'', JStr ''2''), (''val'', JStr ''ferret''),
             (''5'', JStr ''y'')]"
  let ?q2 = "[(''page'', JStr ''2''), (''val'', JStr ''ferret'')]"
  note t = commit_key_order [of qs "''?val=cat&10=a&type=3''" ?q scenario_call]
  note t2 = commit_key_order [of qs "''?val=cat&type=3''" ?q2 scenario_call]
  have h1: "distinct (Object_keys ?q)" by code_simp
  have d: "Object_keys (spread [] (parse qs ''?val=cat&10=a&type=3'')) = [''10'', ''val'', ''type'']"
    by code_simp
  from t h1 have "other_keys (Object_keys (qsObject qs ''?val=cat&10=a&type=3'' ?q))
      = other_keys (Object_keys (spread [] (parse qs ''?val=cat&10=a&type=3'')))
        @ filter (\<lambda>k. k \<notin> set (Object_keys (spread [] (parse qs ''?val=cat&10=a&type=3''))))
            (other_keys (Object_keys ?q))"
    unfolding Let_def by blast
  also have "\<dots> = [''val'', ''type'', ''page'']"
    unfolding d by code_simp
  finally have o: "other_keys (Object_keys (qsObject qs ''?val=cat&10=a&type=3'' ?q))
      = [''val'', ''type'', ''page'']" .
  from t have ko: "key_order (Object_keys (qsObject qs ''?val=cat&10=a&type=3'' ?q))"
    unfolding Let_def by blast
  have k: "Object_keys (qsObject qs ''?val=cat&10=a&type=3'' ?q)
      = [''5'', ''10'', ''20'', ''val'', ''type'', ''page'']"
    by code_simp
  have s: "qs_stringify qs (qsObject qs ''?val=cat&10=a&type=3'' ?q)
      = ''5=y&10=a&20=x&val=ferret&type=3&page=2''"
    by code_simp
  have n: "\<not> key_order [''5'', ''20'', ''10'', ''val'', ''type'', ''page'']" by code_simp
  have h2: "array_index ''page'' = None" by code_simp
  have h3: "distinct (Object_keys ?q2)" by code_simp
  have d2: "Object_keys (spread [] (parse qs ''?val=cat&type=3'')) = [''val'', ''type'']"
    by code_simp
  have h4: "\<forall>k \<in> set (Object_keys ?q2).
      k \<notin> set (Object_keys (spread [] (parse qs ''?val=cat&type=3''))) \<longrightarrow> array_index k = None"
    unfolding d2 using h2 by (simp add: Object_keys_def)
  from t2 h3 h4
  have "Object_keys (qsObject qs ''?val=cat&type=3'' ?q2)
      = Object_keys (spread [] (parse qs ''?val=cat&type=3''))
        @ filter (\<lambda>k. k \<notin> set (Object_keys (spread [] (parse qs ''?val=cat&type=3''))))
            (Object_keys ?q2)"
    unfolding Let_def by blast
  then have k2: "Object_keys (qsObject qs ''?val=cat&type=3'' ?q2) = [''val'', ''type'', ''page'']"
    unfolding d2 by (simp add: Object_keys_def)
  from h1 d o ko k s n h2 k2 show ?thesis by blast
qed

theorem commit_key_order_counterexample:
  "mount qs scenario_call page_five ''?val=cat'' = Some (settled JNull ''?val=cat'')
   \<and> Object_keys (spread [] (parse qs ''?val=cat'')) = [''val'']
   \<and> commitQueue (snd (setValue scenario_call page_five 0 (JStr ''x'')
         (settled JNull ''?val=cat'', one_scope ''?val=cat''))) = [(''5'', JStr ''x'')]
   \<and> Object_keys (qsObject qs ''?val=cat'' [(''5'', JStr ''x'')]) = [''5'', ''val'']
   \<and> committed (scopes (timer_fires qs 0 (elapse COMMIT_DELAY
         (snd (setValue scenario_call page_five 0 (JStr ''x'')
                (settled JNull ''?val=cat'', one_scope ''?val=cat''))))) ! 0)
       = [''5=x&val=cat'']
   \<and> committed (scopes (timer_fires qs 0 (elapse COMMIT_DELAY
         (snd (setValue scenario_call page_five 0 (JStr ''x'')
                (settled JNull ''?val=cat'', one_scope ''?val=cat''))))) ! 0)
       \<noteq> [''val=cat&5=x'']"
  by code_simp




text \<open>
  C9. The queue is one variable of the module: making a scope does not touch it, and every
  scope stores into it and flushes it. A write stored through scope \<open>a\<close> while the timer
  of another scope \<open>b\<close> is pending is in the queue that \<open>b\<close> then commits, to the commit
  function of \<open>b\<close> and over the location of \<open>b\<close>; that flush empties the queue for
  all scopes, so the later flush of \<open>a\<close> commits the location of \<open>a\<close> without the write.
\<close>

theorem queue_shared_by_all_scopes:
  assumes "a < length (scopes m)" and "b < length (scopes m)" and "a \<noteq> b"
    and "timer (scopes m ! b) = Some r" and "r < COMMIT_DELAY"
    and "distinct (map fst (commitQueue m))"
  shows "(let m1 = elapse r (storeInURL a k v m);
              merged = qsObject c (location (scopes m ! b)) (commitQueue m1);
              m2 = timer_fires c b m1;
              m3 = timer_fires c a (elapse COMMIT_DELAY m2)
          in commitQueue (snd (useQsStateCreator loc m)) = commitQueue m
           \<and> map_of (commitQueue m1) = (map_of (commitQueue m))(k \<mapsto> v)
           \<and> committed (scopes m2 ! b) = committed (scopes m ! b) @ [qs_stringify c merged]
           \<and> map_of merged k = Some v
           \<and> commitQueue m2 = []
           \<and> committed (scopes m2 ! a) = committed (scopes m ! a)
           \<and> committed (scopes m3 ! a)
               = committed (scopes m ! a) @ [qs_stringify c (qsObject c (location (scopes m ! a)) [])])"
proof -
  let ?m0 = "storeInURL a k v m"
  let ?m1 = "elapse r ?m0"
  let ?merged = "qsObject c (location (scopes m ! b)) (commitQueue ?m1)"
  let ?m2 = "timer_fires c b ?m1"
  let ?m2' = "elapse COMMIT_DELAY ?m2"
  have la: "a < length (scopes ?m1)" and lb: "b < length (scopes ?m1)"
    using assms(1,2) by simp_all
  have q1: "map_of (commitQueue ?m1) = (map_of (commitQueue m))(k \<mapsto> v)"
    using assms(6) by (simp add: map_of_commitQueue_storeInURL)
  have d1: "distinct (map fst (commitQueue ?m1))"
    by (simp add: distinct_commitQueue_storeInURL)
  have tb: "timer (scopes ?m1 ! b) = Some 0"
    using assms(1-4) by (simp add: scope_elapse scope_storeInURL)
  have ta: "timer (scopes ?m1 ! a) = Some (COMMIT_DELAY - r)"
    using assms(1,5) by (simp add: timer_elapse_storeInURL)
  have locb: "location (scopes ?m1 ! b) = location (scopes m ! b)"
    using assms(2) by (simp add: location_elapse location_storeInURL)
  have cb: "committed (scopes ?m1 ! b) = committed (scopes m ! b)"
    using assms(2) by (simp add: committed_elapse committed_storeInURL)
  have m2: "?m2 = ?m1\<lparr>scopes := (scopes ?m1)[b := (scopes ?m1 ! b)
          \<lparr>timer := None,
           committed := committed (scopes m ! b) @ [qs_stringify c ?merged]\<rparr>],
       commitQueue := []\<rparr>"
    using timer_fires_due [OF lb tb, of c] locb cb by simp
  have c2b: "committed (scopes ?m2 ! b) = committed (scopes m ! b) @ [qs_stringify c ?merged]"
    using lb by (simp add: m2)
  have mk: "map_of ?merged k = Some v"
    using d1 q1 by (simp add: map_of_qsObject)
  have q2: "commitQueue ?m2 = []" by (simp add: m2)
  have sa: "scopes ?m2 ! a = scopes ?m1 ! a"
    using assms(3) la by (simp add: m2)
  have c2a: "committed (scopes ?m2 ! a) = committed (scopes m ! a)"
    using sa assms(1) by (simp add: committed_elapse committed_storeInURL)
  have l2: "a < length (scopes ?m2)" using la by (simp add: m2)
  then have l2': "a < length (scopes ?m2')" by simp
  have t2': "timer (scopes ?m2' ! a) = Some 0"
    using l2 sa ta by (simp add: scope_elapse)
  have loca: "location (scopes ?m2' ! a) = location (scopes m ! a)"
    using l2 sa assms(1) by (simp add: location_elapse location_storeInURL)
  have c2a': "committed (scopes ?m2' ! a) = committed (scopes m ! a)"
    using l2 c2a by (simp add: committed_elapse)
  have q2': "commitQueue ?m2' = []" using q2 by simp
  have c3: "committed (scopes (timer_fires c a ?m2') ! a)
      = committed (scopes m ! a) @ [qs_stringify c (qsObject c (location (scopes m ! a)) [])]"
    using l2' by (simp add: timer_fires_due [OF l2' t2'] loca c2a' q2)
  have u: "commitQueue (snd (useQsStateCreator loc m)) = commitQueue m"
    by (simp add: useQsStateCreator_def)
  show ?thesis
    unfolding Let_def using u q1 c2b mk q2 c2a c3 by blast
qed

theorem queue_shared_by_all_scopes_witness:
  "0 < length (scopes two_scopes) \<and> 1 < length (scopes two_scopes) \<and> (0::nat) \<noteq> 1
   \<and> timer (scopes two_scopes ! 1) = Some 40 \<and> (40::nat) < COMMIT_DELAY
   \<and> distinct (map fst (commitQueue two_scopes))
   \<and> committed (scopes (timer_fires qs 1
         (elapse 40 (storeInURL 0 ''val'' (JStr ''ferret'') two_scopes))) ! 1)
       = [''x=2&val=ferret'']
   \<and> commitQueue (timer_fires qs 1
         (elapse 40 (storeInURL 0 ''val'' (JStr ''ferret'') two_scopes))) = []
   \<and> committed (scopes (timer_fires qs 0 (elapse COMMIT_DELAY (timer_fires qs 1
         (elapse 40 (storeInURL 0 ''val'' (JStr ''ferret'') two_scopes))))) ! 0)
       = [''val=cat'']"
proof -
  have h1: "0 < length (scopes two_scopes)" by code_simp
  have h2: "1 < length (scopes two_scopes)" by code_simp
  have h3: "(0::nat) \<noteq> 1" by simp
  have h4: "timer (scopes two_scopes ! 1) = Some 40" by code_simp
  have h5: "(40::nat) < COMMIT_DELAY" by code_simp
  have h6: "distinct (map fst (commitQueue two_scopes))" by code_simp
  have s1: "committed (scopes (timer_fires qs 1
         (elapse 40 (storeInURL 0 ''val'' (JStr ''ferret'') two_scopes))) ! 1)
       = [''x=2&val=ferret'']"
    by code_simp
  have s2: "committed (scopes (timer_fires qs 0 (elapse COMMIT_DELAY (timer_fires qs 1
         (elapse 40 (storeInURL 0 ''val'' (JStr ''ferret'') two_scopes))))) ! 0)
       = [''val=cat'']"
    by code_simp
  from queue_shared_by_all_scopes [OF h1 h2 h3 h4 h5 h6, of "''val''" "JStr ''ferret''" qs]
  have q: "commitQueue (timer_fires qs 1
         (elapse 40 (storeInURL 0 ''val'' (JStr ''ferret'') two_scopes))) = []"
    unfolding Let_def by blast
  from h1 h2 h3 h4 h5 h6 s1 s2 q show ?thesis by blast
qed

text \<open>
  C10. \<open>isEqualObj(a, b)\<close> is true exactly when \<open>a === b\<close> or the two JSON texts are equal.
  Hence two structurally equal values (the same content, whatever the identities) compare
  equal; two distinct objects whose keys are written in different orders compare unequal;
  and two values that both have no JSON text, such as two different functions, compare
  equal.
\<close>

theorem isEqualObj_by_identity_or_JSON:
  "(isEqualObj a b \<longleftrightarrow> strict_eq a b \<or> JSON_stringify a = JSON_stringify b)
   \<and> (content a = content b \<longrightarrow> isEqualObj a b)
   \<and> (r \<noteq> r' \<and> json_keys es \<noteq> json_keys es' \<longrightarrow> \<not> isEqualObj (JObj r es) (JObj r' es'))
   \<and> (JSON_stringify a = None \<and> JSON_stringify b = None \<longrightarrow> isEqualObj a b)"
proof -
  have 1: "isEqualObj a b \<longleftrightarrow> strict_eq a b \<or> JSON_stringify a = JSON_stringify b"
    by (simp add: isEqualObj_def)
  have 2: "isEqualObj a b" if "content a = content b"
  proof -
    from that have "JSON_stringify (content a) = JSON_stringify (content b)" by simp
    then show ?thesis by (simp add: JSON_stringify_content isEqualObj_def)
  qed
  have 3: "\<not> isEqualObj (JObj r es) (JObj r' es')" if "r \<noteq> r'" "json_keys es \<noteq> json_keys es'"
    using that JSON_stringify_object_keys [of r es r' es'] by (auto simp: isEqualObj_def)
  have 4: "isEqualObj a b" if "JSON_stringify a = None" "JSON_stringify b = None"
    using that by (simp add: isEqualObj_def)
  from 1 2 3 4 show ?thesis by blast
qed

theorem isEqualObj_by_identity_or_JSON_witness:
  "content (JObj 1 [(''a'', JNum 1), (''b'', JObj 2 [(''c'', JStr ''x'')])])
     = content (JObj 3 [(''a'', JNum 1), (''b'', JObj 4 [(''c'', JStr ''x'')])])
   \<and> \<not> strict_eq (JObj 1 [(''a'', JNum 1), (''b'', JObj 2 [(''c'', JStr ''x'')])])
                   (JObj 3 [(''a'', JNum 1), (''b'', JObj 4 [(''c'', JStr ''x'')])])
   \<and> isEqualObj (JObj 1 [(''a'', JNum 1), (''b'', JObj 2 [(''c'', JStr ''x'')])])
                 (JObj 3 [(''a'', JNum 1), (''b'', JObj 4 [(''c'', JStr ''x'')])])
   \<and> json_keys [(''a'', JNum 1), (''b'', JNum 2)] \<noteq> json_keys [(''b'', JNum 2), (''a'', JNum 1)]
   \<and> \<not> isEqualObj (JObj 1 [(''a'', JNum 1), (''b'', JNum 2)])
                   (JObj 2 [(''b'', JNum 2), (''a'', JNum 1)])
   \<and> JSON_stringify (JFun 1) = None \<and> JSON_stringify (JFun 2) = None
   \<and> \<not> strict_eq (JFun 1) (JFun 2)
   \<and> isEqualObj (JFun 1) (JFun 2)"
proof -
  let ?a = "JObj 1 [(''a'', JNum 1), (''b'', JObj 2 [(''c'', JStr ''x'')])]"
  let ?b = "JObj 3 [(''a'', JNum 1), (''b'', JObj 4 [(''c'', JStr ''x'')])]"
  have c: "content ?a = content ?b" by simp
  have n: "\<not> strict_eq ?a ?b" by simp
  from isEqualObj_by_identity_or_JSON [of ?a ?b] c have e1: "isEqualObj ?a ?b" by blast
  have k: "json_keys [(''a'', JNum 1), (''b'', JNum 2)] \<noteq> json_keys [(''b'', JNum 2), (''a'', JNum 1)]"
    by simp
  have r: "(1::nat) \<noteq> 2" by simp
  from isEqualObj_by_identity_or_JSON
         [of _ _ 1 2 "[(''a'', JNum 1), (''b'', JNum 2)]" "[(''b'', JNum 2), (''a'', JNum 1)]"] r k
  have e2: "\<not> isEqualObj (JObj 1 [(''a'', JNum 1), (''b'', JNum 2)])
                   (JObj 2 [(''b'', JNum 2), (''a'', JNum 1)])"
    by blast
  have f1: "JSON_stringify (JFun 1) = None" and f2: "JSON_stringify (JFun 2) = None" by simp_all
  have f3: "\<not> strict_eq (JFun 1) (JFun 2)" by simp
  from isEqualObj_by_identity_or_JSON [of "JFun 1" "JFun 2"] f1 f2
  have e3: "isEqualObj (JFun 1) (JFun 2)" by blast
  from c n e1 k e2 f1 f2 f3 e3 show ?thesis by blast
qed

end
